theory Spec2Isabelle
  imports Main "HOL-Library.Monad_Syntax"
begin

section \<open>The Go runtime and library, as far as package shiori uses them\<close>

text \<open>
  A Go string is a sequence of bytes: \<^typ>\<open>string\<close>, a list of 8-bit \<^typ>\<open>char\<close>.
  A run-time panic (index or slice bound out of range) is the value \<^term>\<open>None\<close> of an
  option type; a Go \<^verbatim>\<open>error\<close> result is an \<open>error option\<close>, \<^term>\<open>None\<close> for \<^verbatim>\<open>nil\<close>.
\<close>

abbreviation CR :: char where "CR \<equiv> CHR 0x0D"
abbreviation LF :: char where "LF \<equiv> CHR 0x0A"
abbreviation CRLF :: string where "CRLF \<equiv> [CR, LF]"

text \<open>\<^verbatim>\<open>xs[i]\<close> and \<^verbatim>\<open>xs[i:]\<close> on a slice, with Go's bounds checks.\<close>

definition index :: "'a list \<Rightarrow> nat \<Rightarrow> 'a option" where
  "index xs i = (if i < length xs then Some (xs ! i) else None)"

definition slice_from :: "'a list \<Rightarrow> nat \<Rightarrow> 'a list option" where
  "slice_from xs i = (if i \<le> length xs then Some (drop i xs) else None)"

text \<open>\<^verbatim>\<open>m[k]\<close> on a \<^verbatim>\<open>map[string]string\<close>: the zero value \<^verbatim>\<open>""\<close> for an absent key.\<close>

definition lookup :: "(string \<rightharpoonup> string) \<Rightarrow> string \<Rightarrow> string" where
  "lookup m k = (case m k of None \<Rightarrow> [] | Some v \<Rightarrow> v)"

subsection \<open>strings.Index and strings.Split\<close>

text \<open>\<^verbatim>\<open>strings.Index(s, substr)\<close>: the first position of \<open>substr\<close> in \<open>s\<close>; \<^term>\<open>None\<close> is Go's -1.\<close>

fun Index :: "string \<Rightarrow> string \<Rightarrow> nat option" where
  "Index [] substr = (if substr = [] then Some 0 else None)"
| "Index (c # s) substr =
     (if take (length substr) (c # s) = substr then Some 0
      else map_option Suc (Index s substr))"

lemma Index_bound: "Index s sep = Some m \<Longrightarrow> m + length sep \<le> length s"
proof (induction s arbitrary: m)
  case Nil
  then show ?case by (simp split: if_splits)
next
  case (Cons c s)
  show ?case
  proof (cases "take (length sep) (c # s) = sep")
    case True
    then have "length (take (length sep) (c # s)) = length sep"
      by simp
    then have "length sep \<le> length (c # s)"
      by (simp only: length_take)
    with True Cons.prems show ?thesis by simp
  next
    case False
    with Cons.prems obtain k where "Index s sep = Some k" "m = Suc k" by auto
    with Cons.IH show ?thesis by simp
  qed
qed

text \<open>
  \<^verbatim>\<open>strings.Split(s, sep)\<close> as \<^verbatim>\<open>genSplit\<close> computes it: cut at the first occurrence of the
  separator, continue behind it, and end with the rest when no occurrence is left. The
  package only passes the separator CRLF. For the empty separator Go explodes the string
  into its UTF-8 sequences; the equation below does so byte by byte, which is the same on
  ASCII text only.
\<close>

function Split :: "string \<Rightarrow> string \<Rightarrow> string list" where
  "Split s sep =
     (if sep = [] then map (\<lambda>c. [c]) s
      else case Index s sep of
             None \<Rightarrow> [s]
           | Some m \<Rightarrow> take m s # Split (drop (m + length sep) s) sep)"
  by pat_completeness auto
termination
proof (relation "measure (\<lambda>(s, sep). length s)")
  show "wf (measure (\<lambda>(s, sep). length s))" by simp
next
  fix s sep :: string and m
  assume "sep \<noteq> []" "Index s sep = Some m"
  then have "m + length sep \<le> length s"
    by (simp add: Index_bound)
  with \<open>sep \<noteq> []\<close>
  show "((drop (m + length sep) s, sep), (s, sep)) \<in> measure (\<lambda>(s, sep). length s)"
    by (cases sep) simp_all
qed

declare Split.simps [simp del]

subsection \<open>strconv.Atoi and strconv.Itoa\<close>

datatype num_err = ErrRange | ErrSyntax

datatype error =
    InvalidMethodError string
  | ParseRequestError string
  | ParseResponseError string
  | ParseHeaderError string
  | NumError string string num_err

text \<open>The width of Go's \<^verbatim>\<open>int\<close> (\<^verbatim>\<open>strconv.IntSize\<close>) on a 64-bit target.\<close>

definition intSize :: nat where
  "intSize = 64"

definition is_digit :: "char \<Rightarrow> bool" where
  "is_digit c = (c \<in> set ''0123456789'')"

definition digit_val :: "char \<Rightarrow> int" where
  "digit_val c = of_char c - 48"

definition decimal :: "string \<Rightarrow> int" where
  "decimal s = foldl (\<lambda>n c. n * 10 + digit_val c) 0 s"

text \<open>
  \<^verbatim>\<open>strconv.Atoi(s)\<close>: an optional sign, then decimal digits. A malformed string gives
  \<open>(0, ErrSyntax)\<close>; a value outside the \<^verbatim>\<open>int\<close> range gives the nearest bound of the range
  and \<open>ErrRange\<close>. The error is a \<^verbatim>\<open>*NumError{Func: "Atoi", Num: s, Err: ...}\<close>.
\<close>

definition Atoi :: "string \<Rightarrow> int \<times> error option" where
  "Atoi s =
     (if s = [] then (0, Some (NumError ''Atoi'' s ErrSyntax))
      else
        let neg = (hd s = CHR ''-'');
            body = (if hd s = CHR ''+'' \<or> hd s = CHR ''-'' then tl s else s)
        in if body = [] \<or> \<not> list_all is_digit body
           then (0, Some (NumError ''Atoi'' s ErrSyntax))
           else
             let un = decimal body;
                 cutoff = 2 ^ (intSize - 1)
             in if \<not> neg \<and> un \<ge> cutoff then (cutoff - 1, Some (NumError ''Atoi'' s ErrRange))
                else if neg \<and> un > cutoff then (- cutoff, Some (NumError ''Atoi'' s ErrRange))
                else (if neg then - un else un, None))"

text \<open>\<^verbatim>\<open>strconv.Itoa(i)\<close>, also what the verb \<^verbatim>\<open>%d\<close> prints: decimal, no padding.\<close>

function utoa :: "int \<Rightarrow> string" where
  "utoa n = (if n < 10 then [char_of (48 + n)] else utoa (n div 10) @ [char_of (48 + n mod 10)])"
  by pat_completeness auto
termination
  by (relation "measure nat") auto

declare utoa.simps [simp del]

definition Itoa :: "int \<Rightarrow> string" where
  "Itoa i = (if i < 0 then CHR ''-'' # utoa (- i) else utoa i)"

subsection \<open>Package regexp, for the three patterns of the package\<close>

text \<open>
  A pattern is the list of its tokens, left to right. The classes are \<^verbatim>\<open>.\<close> (any
  character but line feed, the flag \<^verbatim>\<open>s\<close> being off), \<^verbatim>\<open>\d\<close> (an ASCII digit) and \<^verbatim>\<open>[^c]\<close>
  (any character but \<open>c\<close>, line feed included). The tokens are \<^verbatim>\<open>^\<close> and \<^verbatim>\<open>$\<close> (begin and
  end of the text, the flag \<^verbatim>\<open>m\<close> being off), a literal character, a class under \<^verbatim>\<open>+\<close> or
  \<^verbatim>\<open>*\<close> (greedy), and the parentheses of a capturing group.

  Every character after a class under \<^verbatim>\<open>+\<close> or \<^verbatim>\<open>*\<close> in the three patterns is ASCII, and an
  ASCII byte is a UTF-8 sequence of its own, so matching bytes and matching runes agree.
\<close>

datatype cls = AnyCharNotNL | Digit | NotChar char

fun cls_match :: "cls \<Rightarrow> char \<Rightarrow> bool" where
  "cls_match AnyCharNotNL c = (c \<noteq> LF)"
| "cls_match Digit c = is_digit c"
| "cls_match (NotChar d) c = (c \<noteq> d)"

datatype item =
    OpBeginText
  | OpEndText
  | OpLiteral char
  | OpPlus cls
  | OpStar cls
  | OpCaptureOpen
  | OpCaptureClose

text \<open>
  \<open>run re s i caps\<close> matches the pattern \<open>re\<close> against the rest \<open>s\<close> of the text, which
  starts at position \<open>i\<close> of the text, as a backtracking matcher does: a repetition first
  takes one more character and gives it back only when the rest of the pattern then
  fails. This is the leftmost-first match package regexp promises. It returns the
  position where the match ends and the positions of the parentheses passed, in order.
\<close>

fun run :: "item list \<Rightarrow> string \<Rightarrow> nat \<Rightarrow> nat list \<Rightarrow> (nat \<times> nat list) option" where
  "run [] s i caps = Some (i, caps)"
| "run (OpBeginText # re) s i caps = (if i = 0 then run re s i caps else None)"
| "run (OpEndText # re) s i caps = (if s = [] then run re s i caps else None)"
| "run (OpCaptureOpen # re) s i caps = run re s i (caps @ [i])"
| "run (OpCaptureClose # re) s i caps = run re s i (caps @ [i])"
| "run (OpLiteral c # re) [] i caps = None"
| "run (OpLiteral c # re) (x # xs) i caps =
     (if x = c then run re xs (Suc i) caps else None)"
| "run (OpPlus c # re) [] i caps = None"
| "run (OpPlus c # re) (x # xs) i caps =
     (if cls_match c x then run (OpStar c # re) xs (Suc i) caps else None)"
| "run (OpStar c # re) [] i caps = run re [] i caps"
| "run (OpStar c # re) (x # xs) i caps =
     (if cls_match c x
      then (case run (OpStar c # re) xs (Suc i) caps of
              Some m \<Rightarrow> Some m
            | None \<Rightarrow> run re (x # xs) i caps)
      else run re (x # xs) i caps)"

text \<open>The leftmost match: the first start position, from \<open>i\<close> on, where \<open>run\<close> succeeds.\<close>

fun search :: "item list \<Rightarrow> string \<Rightarrow> nat \<Rightarrow> (nat \<times> nat \<times> nat list) option" where
  "search re [] i =
     (case run re [] i [] of Some (e, caps) \<Rightarrow> Some (i, e, caps) | None \<Rightarrow> None)"
| "search re (x # xs) i =
     (case run re (x # xs) i [] of
        Some (e, caps) \<Rightarrow> Some (i, e, caps)
      | None \<Rightarrow> search re xs (Suc i))"

text \<open>\<^verbatim>\<open>s[b:e]\<close>, and the groups' texts from the positions of their parentheses (no group
  of the three patterns stands inside another).\<close>

definition substr :: "string \<Rightarrow> nat \<Rightarrow> nat \<Rightarrow> string" where
  "substr s b e = take (e - b) (drop b s)"

fun groups :: "string \<Rightarrow> nat list \<Rightarrow> string list" where
  "groups s (b # e # ps) = substr s b e # groups s ps"
| "groups s ps = []"

text \<open>
  \<^verbatim>\<open>re.FindStringSubmatch(s)\<close>: \<^term>\<open>None\<close> (Go's \<^verbatim>\<open>nil\<close>) when nothing matches, else the text
  of the match followed by the texts of its groups.
\<close>

definition FindStringSubmatch :: "item list \<Rightarrow> string \<Rightarrow> string list option" where
  "FindStringSubmatch re s =
     (case search re s 0 of
        None \<Rightarrow> None
      | Some (b, e, caps) \<Rightarrow> Some (substr s b e # groups s caps))"

section \<open>Package shiori\<close>

subsection \<open>Method and Protocol\<close>

text \<open>\<^verbatim>\<open>type Method int\<close> and \<^verbatim>\<open>type Protocol int\<close>, with their \<^verbatim>\<open>iota\<close> constants.\<close>

type_synonym Method = int
type_synonym Protocol = int

definition InvalidMethod :: Method where "InvalidMethod = 0"
definition GET :: Method where "GET = 1"
definition NOTIFY :: Method where "NOTIFY = 2"

definition InvalidProtocol :: Protocol where "InvalidProtocol = 0"
definition SHIORI :: Protocol where "SHIORI = 1"

definition Method_String :: "Method \<Rightarrow> string" where
  "Method_String method =
     (if method = GET then ''GET''
      else if method = NOTIFY then ''NOTIFY''
      else [])"

definition ToMethod :: "string \<Rightarrow> Method \<times> error option" where
  "ToMethod method =
     (if method = ''GET'' then (GET, None)
      else if method = ''NOTIFY'' then (NOTIFY, None)
      else (InvalidMethod, Some (InvalidMethodError method)))"

definition Protocol_String :: "Protocol \<Rightarrow> string" where
  "Protocol_String protocol = ''SHIORI''"

subsection \<open>Headers, Request and Response\<close>

type_synonym Headers = "string \<rightharpoonup> string"

record Request =
  Method :: Method
  Protocol :: Protocol
  Version :: string
  Headers :: Headers

record Response =
  Code :: int
  Protocol :: Protocol
  Version :: string
  Headers :: Headers

definition Request_Charset :: "Request \<Rightarrow> string" where
  "Request_Charset request = lookup (Request.Headers request) ''Charset''"

definition Request_Sender :: "Request \<Rightarrow> string" where
  "Request_Sender request = lookup (Request.Headers request) ''Sender''"

definition Request_Reference :: "Request \<Rightarrow> int \<Rightarrow> string" where
  "Request_Reference request i = lookup (Request.Headers request) (''Reference'' @ Itoa i)"

definition Response_Message :: "Response \<Rightarrow> string" where
  "Response_Message response = (if Code response = 200 then ''OK'' else [])"

definition Response_Charset :: "Response \<Rightarrow> string" where
  "Response_Charset response = lookup (Response.Headers response) ''Charset''"

definition Response_Sender :: "Response \<Rightarrow> string" where
  "Response_Sender response = lookup (Response.Headers response) ''Sender''"

definition Response_Value :: "Response \<Rightarrow> int \<Rightarrow> string" where
  "Response_Value response i = lookup (Response.Headers response) ''Value''"

definition Response_Reference :: "Response \<Rightarrow> int \<Rightarrow> string" where
  "Response_Reference response i = lookup (Response.Headers response) (''Reference'' @ Itoa i)"

subsection \<open>Rendering\<close>

text \<open>
  \<^verbatim>\<open>range\<close> over a Go map visits every key once, in an order the language leaves open.
  The order is the parameter \<open>keys\<close> of the rendering functions; \<open>range_order\<close> says
  which lists are orders of a map.
\<close>

definition range_order :: "Headers \<Rightarrow> string list \<Rightarrow> bool" where
  "range_order headers keys = (distinct keys \<and> set keys = dom headers)"

fun Headers_String :: "string list \<Rightarrow> Headers \<Rightarrow> string" where
  "Headers_String [] headers = []"
| "Headers_String (key # keys) headers =
     key @ '': '' @ lookup headers key @ CRLF @ Headers_String keys headers"

text \<open>\<^verbatim>\<open>fmt.Sprintf("%s %s/%s\r\n%s\r\n", ...)\<close> and \<^verbatim>\<open>fmt.Sprintf("%s/%s %d %s\r\n%s\r\n", ...)\<close>:
  \<^verbatim>\<open>%s\<close> prints an operand by its \<^verbatim>\<open>String\<close> method, \<^verbatim>\<open>%d\<close> prints the \<^verbatim>\<open>int\<close> in decimal.\<close>

definition Request_String :: "string list \<Rightarrow> Request \<Rightarrow> string" where
  "Request_String keys request =
     Method_String (Method request) @ '' '' @ Protocol_String (Request.Protocol request)
       @ ''/'' @ Request.Version request @ CRLF
       @ Headers_String keys (Request.Headers request) @ CRLF"

definition Response_String :: "string list \<Rightarrow> Response \<Rightarrow> string" where
  "Response_String keys response =
     Protocol_String (Response.Protocol response) @ ''/'' @ Response.Version response
       @ '' '' @ Itoa (Code response) @ '' '' @ Response_Message response @ CRLF
       @ Headers_String keys (Response.Headers response) @ CRLF"

subsection \<open>Parsing\<close>

text \<open>\<^verbatim>\<open>^(.+) SHIORI/(\d+\.\d+)$\<close>\<close>

definition requestLineRe :: "item list" where
  "requestLineRe =
     [OpBeginText, OpCaptureOpen, OpPlus AnyCharNotNL, OpCaptureClose]
     @ map OpLiteral '' SHIORI/''
     @ [OpCaptureOpen, OpPlus Digit, OpLiteral CHR ''.'', OpPlus Digit, OpCaptureClose,
        OpEndText]"

text \<open>\<^verbatim>\<open>^SHIORI/(\d+\.\d+) (\d+) (.+)$\<close>\<close>

definition statusLineRe :: "item list" where
  "statusLineRe =
     [OpBeginText] @ map OpLiteral ''SHIORI/''
     @ [OpCaptureOpen, OpPlus Digit, OpLiteral CHR ''.'', OpPlus Digit, OpCaptureClose,
        OpLiteral CHR '' '', OpCaptureOpen, OpPlus Digit, OpCaptureClose,
        OpLiteral CHR '' '', OpCaptureOpen, OpPlus AnyCharNotNL, OpCaptureClose,
        OpEndText]"

text \<open>\<^verbatim>\<open>^([^:]+): (.*)$\<close>\<close>

definition headerRe :: "item list" where
  "headerRe =
     [OpBeginText, OpCaptureOpen, OpPlus (NotChar CHR '':''), OpCaptureClose,
      OpLiteral CHR '':'', OpLiteral CHR '' '',
      OpCaptureOpen, OpStar AnyCharNotNL, OpCaptureClose, OpEndText]"

text \<open>
  The loop of \<^verbatim>\<open>ParseHeaderLines\<close> over the lines still to read, with the map built so
  far: \<^verbatim>\<open>break\<close> on the empty line, \<^verbatim>\<open>return headers, ParseHeaderError(...)\<close> on a line
  the pattern does not match, else \<^verbatim>\<open>headers[headerResult[1]] = headerResult[2]\<close>.
\<close>

fun ParseHeaderLines_loop ::
  "string list \<Rightarrow> Headers \<Rightarrow> (Headers \<times> error option) option" where
  "ParseHeaderLines_loop [] headers = Some (headers, None)"
| "ParseHeaderLines_loop (line # rest) headers =
     (if line = [] then Some (headers, None)
      else case FindStringSubmatch headerRe line of
             None \<Rightarrow> Some (headers, Some (ParseHeaderError (''header line parse failed: '' @ line)))
           | Some headerResult \<Rightarrow> do {
               key \<leftarrow> index headerResult 1;
               val \<leftarrow> index headerResult 2;
               ParseHeaderLines_loop rest (headers(key \<mapsto> val))
             })"

definition ParseHeaderLines :: "string list \<Rightarrow> (Headers \<times> error option) option" where
  "ParseHeaderLines headerLines = ParseHeaderLines_loop headerLines Map.empty"

definition ParseRequest :: "string \<Rightarrow> (Request \<times> error option) option" where
  "ParseRequest requestStr = do {
     let request = \<lparr>Method = InvalidMethod, Protocol = SHIORI, Version = [], Headers = Map.empty\<rparr>;
     let lines = Split requestStr CRLF;
     requestLine \<leftarrow> index lines 0;
     headerLines \<leftarrow> slice_from lines 1;
     case FindStringSubmatch requestLineRe requestLine of
       None \<Rightarrow>
         Some (request, Some (ParseRequestError (''request line parse failed: '' @ requestLine)))
     | Some requestLineResult \<Rightarrow> do {
         token \<leftarrow> index requestLineResult 1;
         let (m, err) = ToMethod token;
         let request = request\<lparr>Method := m\<rparr>;
         if err \<noteq> None then Some (request, err)
         else do {
           version \<leftarrow> index requestLineResult 2;
           let request = request\<lparr>Request.Version := version\<rparr>;
           (headers, err) \<leftarrow> ParseHeaderLines headerLines;
           let request = request\<lparr>Request.Headers := headers\<rparr>;
           if err \<noteq> None then Some (request, err) else Some (request, None)
         }
       }
   }"

definition ParseResponse :: "string \<Rightarrow> (Response \<times> error option) option" where
  "ParseResponse responseStr = do {
     let response = \<lparr>Code = 0, Protocol = SHIORI, Version = [], Headers = Map.empty\<rparr>;
     let lines = Split responseStr CRLF;
     statusLine \<leftarrow> index lines 0;
     headerLines \<leftarrow> slice_from lines 1;
     case FindStringSubmatch statusLineRe statusLine of
       None \<Rightarrow>
         Some (response, Some (ParseResponseError (''status line parse failed: '' @ statusLine)))
     | Some statusLineResult \<Rightarrow> do {
         version \<leftarrow> index statusLineResult 1;
         let response = response\<lparr>Response.Version := version\<rparr>;
         digits \<leftarrow> index statusLineResult 2;
         let (code, err) = Atoi digits;
         let response = response\<lparr>Code := code\<rparr>;
         if err \<noteq> None then Some (response, err)
         else do {
           (headers, err) \<leftarrow> ParseHeaderLines headerLines;
           let response = response\<lparr>Response.Headers := headers\<rparr>;
           if err \<noteq> None then Some (response, err) else Some (response, None)
         }
       }
   }"

section \<open>Notions used in the statements and proofs\<close>

text \<open>
  \<open>blocks c re\<close>: the pattern \<open>re\<close> fails on every text that starts with a character of
  the class \<open>c\<close>. A repetition of \<open>c\<close> followed by such a pattern never gives a character
  back, so its match is the longest run of \<open>c\<close>.
\<close>

definition blocks :: "cls \<Rightarrow> item list \<Rightarrow> bool" where
  "blocks c re = (\<forall>x s i caps. cls_match c x \<longrightarrow> run re (x # s) i caps = None)"

text \<open>The number of parentheses of a pattern, twice its number of groups.\<close>

definition ncaps :: "item list \<Rightarrow> nat" where
  "ncaps re = length (filter (\<lambda>t. t = OpCaptureOpen \<or> t = OpCaptureClose) re)"

text \<open>
  The shape of a header line in the words of the specification: one or more characters
  other than a colon, then a colon and a space, then a value that may be empty.
\<close>

definition header_shape :: "string \<Rightarrow> bool" where
  "header_shape l = (\<exists>name val. l = name @ '': '' @ val \<and> name \<noteq> [] \<and> CHR '':'' \<notin> set name)"

text \<open>
  The shape of a status line in the words of the specification:
  \<^verbatim>\<open>SHIORI/<version> <code> <reason>\<close>, the version digits, a dot and digits, the code one or
  more digits, the reason phrase at least one character. In \<open>status_shape_one_line\<close> the
  reason phrase moreover holds no line feed.
\<close>

definition status_shape :: "string \<Rightarrow> bool" where
  "status_shape l = (\<exists>v1 v2 c r. l = ''SHIORI/'' @ v1 @ ''.'' @ v2 @ '' '' @ c @ '' '' @ r
      \<and> v1 \<noteq> [] \<and> list_all is_digit v1 \<and> v2 \<noteq> [] \<and> list_all is_digit v2
      \<and> c \<noteq> [] \<and> list_all is_digit c \<and> r \<noteq> [])"

definition status_shape_one_line :: "string \<Rightarrow> bool" where
  "status_shape_one_line l = (\<exists>v1 v2 c r. l = ''SHIORI/'' @ v1 @ ''.'' @ v2 @ '' '' @ c @ '' '' @ r
      \<and> v1 \<noteq> [] \<and> list_all is_digit v1 \<and> v2 \<noteq> [] \<and> list_all is_digit v2
      \<and> c \<noteq> [] \<and> list_all is_digit c \<and> r \<noteq> [] \<and> LF \<notin> set r)"

text \<open>The pattern of the status line behind \<^verbatim>\<open>^SHIORI/\<close>, and behind each of its parts.\<close>

abbreviation status_reason :: "item list" where
  "status_reason \<equiv> [OpPlus AnyCharNotNL, OpCaptureClose, OpEndText]"

abbreviation status_code :: "item list" where
  "status_code \<equiv> OpPlus Digit # OpCaptureClose # OpLiteral CHR '' '' # OpCaptureOpen # status_reason"

abbreviation status_minor :: "item list" where
  "status_minor \<equiv> OpPlus Digit # OpCaptureClose # OpLiteral CHR '' '' # OpCaptureOpen # status_code"

abbreviation status_major :: "item list" where
  "status_major \<equiv> OpPlus Digit # OpLiteral CHR ''.'' # status_minor"

section \<open>Method conversion\<close>

lemma Method_consts_distinct:
  "GET \<noteq> NOTIFY" "NOTIFY \<noteq> GET" "GET \<noteq> InvalidMethod" "NOTIFY \<noteq> InvalidMethod"
  by (simp_all add: GET_def NOTIFY_def InvalidMethod_def)

text \<open>
  C2. \<open>ToMethod\<close> returns a nil error exactly on the two tokens \<^verbatim>\<open>"GET"\<close> and \<^verbatim>\<open>"NOTIFY"\<close>,
  compared byte by byte; on success \<open>Method_String\<close> gives the token back; on every other
  string, the empty one included, it returns \<open>InvalidMethod\<close> with an
  \<open>InvalidMethodError\<close> that carries the string it was given.
\<close>

theorem ToMethod_accepts_exactly_GET_NOTIFY:
  "(snd (ToMethod m) = None \<longleftrightarrow> m = ''GET'' \<or> m = ''NOTIFY'')
   \<and> (snd (ToMethod m) = None \<longrightarrow> Method_String (fst (ToMethod m)) = m)
   \<and> (m \<noteq> ''GET'' \<and> m \<noteq> ''NOTIFY'' \<longrightarrow>
        ToMethod m = (InvalidMethod, Some (InvalidMethodError m)))"
  by (simp add: ToMethod_def Method_String_def Method_consts_distinct)

theorem ToMethod_accepts_exactly_GET_NOTIFY_witness:
  "snd (ToMethod ''GET'') = None
   \<and> Method_String (fst (ToMethod ''GET'')) = ''GET''
   \<and> snd (ToMethod ''NOTIFY'') = None
   \<and> Method_String (fst (ToMethod ''NOTIFY'')) = ''NOTIFY''
   \<and> ToMethod ''get'' = (InvalidMethod, Some (InvalidMethodError ''get''))
   \<and> ToMethod ''GET '' = (InvalidMethod, Some (InvalidMethodError ''GET ''))
   \<and> ToMethod [] = (InvalidMethod, Some (InvalidMethodError []))"
  using ToMethod_accepts_exactly_GET_NOTIFY [of "''GET''"]
    ToMethod_accepts_exactly_GET_NOTIFY [of "''NOTIFY''"]
    ToMethod_accepts_exactly_GET_NOTIFY [of "''get''"]
    ToMethod_accepts_exactly_GET_NOTIFY [of "''GET ''"]
    ToMethod_accepts_exactly_GET_NOTIFY [of "[]"]
  by simp

section \<open>Accessors and rendering\<close>

text \<open>
  C9. \<open>Response_Value response i\<close> does not depend on \<open>i\<close>: for every response and
  every index it is the value bound to the header name \<^verbatim>\<open>"Value"\<close>, and the empty string
  when the name is not bound; so the indices 0 and 7 give the same string.
\<close>

theorem Response_Value_ignores_index:
  "Response_Value response i =
     (case Response.Headers response ''Value'' of None \<Rightarrow> [] | Some v \<Rightarrow> v)
   \<and> Response_Value response i = Response_Value response j
   \<and> Response_Value response 0 = Response_Value response 7"
  by (simp add: Response_Value_def lookup_def)

theorem Response_Value_ignores_index_witness:
  "Response_Value
     \<lparr>Code = 200, Protocol = SHIORI, Version = ''3.0'',
      Headers = [''Value'' \<mapsto> ''a'', ''Value1'' \<mapsto> ''b'']\<rparr> 1 = ''a''
   \<and> Response_Value
     \<lparr>Code = 200, Protocol = SHIORI, Version = ''3.0'',
      Headers = [''Value1'' \<mapsto> ''b'']\<rparr> 1 = []"
  using Response_Value_ignores_index
      [of "\<lparr>Code = 200, Protocol = SHIORI, Version = ''3.0'',
            Headers = [''Value'' \<mapsto> ''a'', ''Value1'' \<mapsto> ''b'']\<rparr>" 1 1]
    Response_Value_ignores_index
      [of "\<lparr>Code = 200, Protocol = SHIORI, Version = ''3.0'',
            Headers = [''Value1'' \<mapsto> ''b'']\<rparr>" 1 1]
  by simp

text \<open>
  C7. For every response and every order in which the map is ranged over, the rendering
  is \<^verbatim>\<open>SHIORI/\<close>, the version, a space, the code in decimal, a space, the reason phrase,
  CRLF, the rendered headers and a last CRLF. The reason phrase depends on the code
  alone: \<^verbatim>\<open>OK\<close> for 200 and the empty string for every other code, 500 among them.
\<close>

theorem Response_String_layout:
  "Response_String keys response =
     ''SHIORI/'' @ Response.Version response @ '' '' @ Itoa (Code response) @ '' ''
       @ Response_Message response @ CRLF
       @ Headers_String keys (Response.Headers response) @ CRLF
   \<and> Response_Message response = (if Code response = 200 then ''OK'' else [])
   \<and> (Code response \<noteq> 200 \<longrightarrow> Response_Message response = [])
   \<and> (Code response = 500 \<longrightarrow> Response_Message response = [])"
  by (simp add: Response_String_def Protocol_String_def Response_Message_def)

theorem Response_String_layout_witness:
  "Response_String []
     \<lparr>Code = 500, Protocol = SHIORI, Version = ''3.0'', Headers = Map.empty\<rparr>
     = ''SHIORI/3.0 500 '' @ CRLF @ CRLF
   \<and> Response_String [''Sender'']
     \<lparr>Code = 200, Protocol = InvalidProtocol, Version = ''3.0'',
      Headers = [''Sender'' \<mapsto> ''A'']\<rparr>
     = ''SHIORI/3.0 200 OK'' @ CRLF @ ''Sender: A'' @ CRLF @ CRLF"
proof -
  have i500: "Itoa 500 = ''500''" and i200: "Itoa 200 = ''200''"
    by code_simp+
  show ?thesis
    using Response_String_layout
        [of "[]" "\<lparr>Code = 500, Protocol = SHIORI, Version = ''3.0'', Headers = Map.empty\<rparr>"]
      Response_String_layout
        [of "[''Sender'']" "\<lparr>Code = 200, Protocol = InvalidProtocol, Version = ''3.0'',
            Headers = [''Sender'' \<mapsto> ''A'']\<rparr>"]
    by (simp add: i500 i200 lookup_def)
qed

section \<open>The matcher on patterns that never give a character back\<close>

lemma blocks_Literal: "\<not> cls_match c d \<Longrightarrow> blocks c (OpLiteral d # re)"
  by (auto simp: blocks_def)

lemma blocks_EndText: "blocks c (OpEndText # re)"
  by (simp add: blocks_def)

lemma blocks_Close: "blocks c re \<Longrightarrow> blocks c (OpCaptureClose # re)"
  by (simp add: blocks_def)

lemma blocks_rest:
  assumes "blocks c re" and "run re rest i caps = Some m"
  shows "takeWhile (cls_match c) rest = []" and "dropWhile (cls_match c) rest = rest"
  using assms by (cases rest; auto simp: blocks_def)+

lemma star_det:
  assumes "blocks c re"
  shows "run (OpStar c # re) s i caps =
         run re (dropWhile (cls_match c) s) (i + length (takeWhile (cls_match c) s)) caps"
proof (induction s arbitrary: i)
  case Nil
  show ?case by simp
next
  case (Cons x xs)
  show ?case
  proof (cases "cls_match c x")
    case True
    from assms True have "run re (x # xs) i caps = None"
      by (simp add: blocks_def)
    with True Cons [of "Suc i"] show ?thesis
      by (simp split: option.splits)
  next
    case False
    then show ?thesis by simp
  qed
qed

lemma plus_det:
  assumes "blocks c re"
  shows "run (OpPlus c # re) s i caps =
         (if takeWhile (cls_match c) s = [] then None
          else run re (dropWhile (cls_match c) s) (i + length (takeWhile (cls_match c) s)) caps)"
  using star_det [OF assms] by (cases s) simp_all

lemma list_all_takeWhile: "list_all P (takeWhile P s)"
  by (induction s) simp_all

lemma star_iff:
  assumes "blocks c re"
  shows "run (OpStar c # re) s i caps = Some m \<longleftrightarrow>
         (\<exists>ds rest. s = ds @ rest \<and> list_all (cls_match c) ds
            \<and> run re rest (i + length ds) caps = Some m)"
    (is "?l = ?r")
proof
  assume ?l
  then have "run re (dropWhile (cls_match c) s) (i + length (takeWhile (cls_match c) s)) caps = Some m"
    by (simp add: star_det [OF assms])
  then show ?r
    by (intro exI [of _ "takeWhile (cls_match c) s"] exI [of _ "dropWhile (cls_match c) s"])
      (simp add: list_all_takeWhile)
next
  assume ?r
  then obtain ds rest where s: "s = ds @ rest" and ds: "list_all (cls_match c) ds"
    and r: "run re rest (i + length ds) caps = Some m" by blast
  from ds have "takeWhile (cls_match c) s = ds @ takeWhile (cls_match c) rest"
    "dropWhile (cls_match c) s = dropWhile (cls_match c) rest"
    by (simp_all add: s list_all_iff)
  with blocks_rest [OF assms r] r show ?l
    by (simp add: star_det [OF assms])
qed

lemma plus_iff:
  assumes "blocks c re"
  shows "run (OpPlus c # re) s i caps = Some m \<longleftrightarrow>
         (\<exists>ds rest. s = ds @ rest \<and> ds \<noteq> [] \<and> list_all (cls_match c) ds
            \<and> run re rest (i + length ds) caps = Some m)"
    (is "?l = ?r")
proof
  assume l: ?l
  then have ne: "takeWhile (cls_match c) s \<noteq> []"
    by (simp add: plus_det [OF assms] split: if_splits)
  with l have "run re (dropWhile (cls_match c) s) (i + length (takeWhile (cls_match c) s)) caps = Some m"
    by (simp add: plus_det [OF assms])
  with ne show ?r
    by (intro exI [of _ "takeWhile (cls_match c) s"] exI [of _ "dropWhile (cls_match c) s"])
      (simp add: list_all_takeWhile)
next
  assume ?r
  then obtain ds rest where s: "s = ds @ rest" and ne: "ds \<noteq> []"
    and ds: "list_all (cls_match c) ds"
    and r: "run re rest (i + length ds) caps = Some m" by blast
  from ds have "takeWhile (cls_match c) s = ds @ takeWhile (cls_match c) rest"
    "dropWhile (cls_match c) s = dropWhile (cls_match c) rest"
    by (simp_all add: s list_all_iff)
  with blocks_rest [OF assms r] r ne show ?l
    by (simp add: plus_det [OF assms])
qed

lemma lit_iff:
  "run (OpLiteral c # re) s i caps = Some m \<longleftrightarrow>
   (\<exists>rest. s = c # rest \<and> run re rest (Suc i) caps = Some m)"
  by (cases s) auto

lemma lits_iff:
  "run (map OpLiteral w @ re) s i caps = Some m \<longleftrightarrow>
   (\<exists>rest. s = w @ rest \<and> run re rest (i + length w) caps = Some m)"
proof (induction w arbitrary: s i)
  case Nil
  show ?case by simp
next
  case (Cons a w)
  show ?case by (cases s) (auto simp: Cons)
qed

lemma search_BeginText_pos: "0 < i \<Longrightarrow> search (OpBeginText # re) s i = None"
  by (induction s arbitrary: i) simp_all

lemma search_BeginText:
  "search (OpBeginText # re) s 0 =
     (case run re s 0 [] of Some (e, caps) \<Rightarrow> Some (0, e, caps) | None \<Rightarrow> None)"
  by (cases s) (simp_all add: search_BeginText_pos split: option.splits)

lemma substr_middle: "substr (p @ m @ q) (length p) (length p + length m) = m"
  by (simp add: substr_def)

lemma substr_all: "substr s 0 (length s) = s"
  by (simp add: substr_def)

subsection \<open>The number of groups of a match\<close>

lemma run_caps_length:
  "run re s i caps = Some (e, caps') \<Longrightarrow> length caps' = length caps + ncaps re"
  by (induction re s i caps arbitrary: e caps' rule: run.induct)
    (auto simp: ncaps_def split: if_splits option.splits)

lemma search_caps_length:
  "search re s i = Some (b, e, caps) \<Longrightarrow> length caps = ncaps re"
  by (induction s arbitrary: i) (auto dest: run_caps_length split: option.splits)

lemma groups_length: "length (groups s ps) = length ps div 2"
  by (induction s ps rule: groups.induct) simp_all

lemma FindStringSubmatch_length:
  "FindStringSubmatch re s = Some res \<Longrightarrow> length res = Suc (ncaps re div 2)"
  by (auto simp: FindStringSubmatch_def groups_length dest: search_caps_length split: option.splits)

lemma requestLine_length:
  "FindStringSubmatch requestLineRe s = Some res \<Longrightarrow> \<exists>a b c. res = [a, b, c]"
proof -
  assume "FindStringSubmatch requestLineRe s = Some res"
  then have "length res = Suc (ncaps requestLineRe div 2)"
    by (rule FindStringSubmatch_length)
  also have "ncaps requestLineRe = 4"
    by (simp add: ncaps_def requestLineRe_def)
  finally have "length res = 3" by simp
  then show ?thesis
    by (auto simp: length_Suc_conv numeral_3_eq_3)
qed

lemma statusLine_length:
  "FindStringSubmatch statusLineRe s = Some res \<Longrightarrow> \<exists>a b c d. res = [a, b, c, d]"
proof -
  assume "FindStringSubmatch statusLineRe s = Some res"
  then have "length res = Suc (ncaps statusLineRe div 2)"
    by (rule FindStringSubmatch_length)
  also have "ncaps statusLineRe = 6"
    by (simp add: ncaps_def statusLineRe_def)
  finally have "length res = Suc (Suc (Suc (Suc 0)))" by simp
  then show ?thesis
    by (auto simp: length_Suc_conv)
qed

section \<open>The header pattern\<close>

lemma blocks_header_name: "blocks (NotChar CHR '':'') (OpCaptureClose # OpLiteral CHR '':'' # re)"
  by (simp add: blocks_Close blocks_Literal)

lemma blocks_to_end: "blocks c (OpCaptureClose # OpEndText # re)"
  by (simp add: blocks_Close blocks_EndText)

lemma star_to_end:
  "run [OpStar c, OpCaptureClose, OpEndText] v i caps = Some m \<longleftrightarrow>
     list_all (cls_match c) v \<and> m = (i + length v, caps @ [i + length v])"
proof -
  have "run [OpStar c, OpCaptureClose, OpEndText] v i caps =
    run [OpCaptureClose, OpEndText] (dropWhile (cls_match c) v) (i + length (takeWhile (cls_match c) v)) caps"
    by (rule star_det [OF blocks_to_end])
  also have "\<dots> = (if dropWhile (cls_match c) v = []
      then Some (i + length (takeWhile (cls_match c) v), caps @ [i + length (takeWhile (cls_match c) v)])
      else None)"
    by simp
  finally show ?thesis
    by (auto simp: list_all_iff dropWhile_eq_Nil_conv takeWhile_eq_all_conv [THEN iffD2])
qed

lemma plus_to_end:
  "run [OpPlus c, OpCaptureClose, OpEndText] v i caps = Some m \<longleftrightarrow>
     v \<noteq> [] \<and> list_all (cls_match c) v \<and> m = (i + length v, caps @ [i + length v])"
  by (cases v) (auto simp: star_to_end)

lemma header_run:
  "run [OpPlus (NotChar CHR '':''), OpCaptureClose,
        OpLiteral CHR '':'', OpLiteral CHR '' '',
        OpCaptureOpen, OpStar AnyCharNotNL, OpCaptureClose, OpEndText] l 0 [0] = Some m \<longleftrightarrow>
   (\<exists>n v. l = n @ '': '' @ v \<and> n \<noteq> [] \<and> CHR '':'' \<notin> set n \<and> LF \<notin> set v
      \<and> m = (length l, [0, length n, length n + 2, length l]))"
  (is "?l = ?r")
proof
  assume ?l
  then obtain n r0 where 1: "l = n @ r0" "n \<noteq> []" "list_all (cls_match (NotChar CHR '':'')) n"
    and 2: "run [OpLiteral CHR '':'', OpLiteral CHR '' '',
        OpCaptureOpen, OpStar AnyCharNotNL, OpCaptureClose, OpEndText] r0 (length n) [0, length n] = Some m"
    unfolding plus_iff [OF blocks_header_name] by auto
  from 2 obtain v where 3: "r0 = '': '' @ v"
    and 4: "run [OpStar AnyCharNotNL, OpCaptureClose, OpEndText] v (length n + 2)
       [0, length n, length n + 2] = Some m"
    unfolding lit_iff by auto
  from 4 have 5: "list_all (cls_match AnyCharNotNL) v"
    and 6: "m = (length n + 2 + length v, [0, length n, length n + 2, length n + 2 + length v])"
    unfolding star_to_end by simp_all
  have l: "l = n @ '': '' @ v"
    using 1(1) 3 by simp
  have "CHR '':'' \<notin> set n" "LF \<notin> set v"
    using 1(3) 5 by (auto simp: list_all_iff)
  moreover have "m = (length l, [0, length n, length n + 2, length l])"
    unfolding 6 l by simp
  ultimately show ?r
    using l 1(2) by blast
next
  assume ?r
  then obtain n v where l: "l = n @ '': '' @ v" and n: "n \<noteq> []" "CHR '':'' \<notin> set n"
    and v: "LF \<notin> set v" and m: "m = (length l, [0, length n, length n + 2, length l])"
    by blast
  have "run [OpStar AnyCharNotNL, OpCaptureClose, OpEndText] v (length n + 2)
       [0, length n, length n + 2] = Some m"
    unfolding star_to_end
    using v by (auto simp: list_all_iff m l)
  then have "run [OpLiteral CHR '':'', OpLiteral CHR '' '',
        OpCaptureOpen, OpStar AnyCharNotNL, OpCaptureClose, OpEndText] ('': '' @ v) (length n) [0, length n] = Some m"
    by simp
  then show ?l
    unfolding plus_iff [OF blocks_header_name] l
    using n by (intro exI [of _ n] exI [of _ "'': '' @ v"]) (auto simp: list_all_iff)
qed

lemma header_match_iff:
  "FindStringSubmatch headerRe l = Some res \<longleftrightarrow>
   (\<exists>n v. l = n @ '': '' @ v \<and> n \<noteq> [] \<and> CHR '':'' \<notin> set n \<and> LF \<notin> set v
      \<and> res = [l, n, v])"
  (is "?l = ?r")
proof -
  have g: "substr (n @ '': '' @ v) 0 (length n) = n"
    "substr (n @ '': '' @ v) (length n + 2) (length (n @ '': '' @ v)) = v"
    "substr (n @ '': '' @ v) 0 (length (n @ '': '' @ v)) = n @ '': '' @ v" for n v :: string
    by (simp_all add: substr_def)
  have F: "FindStringSubmatch headerRe l =
    (case run [OpPlus (NotChar CHR '':''), OpCaptureClose,
        OpLiteral CHR '':'', OpLiteral CHR '' '',
        OpCaptureOpen, OpStar AnyCharNotNL, OpCaptureClose, OpEndText] l 0 [0] of
       None \<Rightarrow> None | Some (e, caps) \<Rightarrow> Some (substr l 0 e # groups l caps))"
    unfolding FindStringSubmatch_def headerRe_def search_BeginText
    by (simp split: option.splits)
  show ?thesis
  proof
    assume ?l
    then obtain m where m: "run [OpPlus (NotChar CHR '':''), OpCaptureClose,
        OpLiteral CHR '':'', OpLiteral CHR '' '',
        OpCaptureOpen, OpStar AnyCharNotNL, OpCaptureClose, OpEndText] l 0 [0] = Some m"
      and res: "res = substr l 0 (fst m) # groups l (snd m)"
      unfolding F by (auto split: option.splits)
    from m obtain n v where l: "l = n @ '': '' @ v" and nv: "n \<noteq> []" "CHR '':'' \<notin> set n" "LF \<notin> set v"
      and mm: "m = (length l, [0, length n, length n + 2, length l])"
      unfolding header_run by blast
    have "res = [l, n, v]"
      unfolding res mm l using g [of n v] by simp
    with l nv show ?r by blast
  next
    assume ?r
    then obtain n v where l: "l = n @ '': '' @ v" and nv: "n \<noteq> []" "CHR '':'' \<notin> set n" "LF \<notin> set v"
      and res: "res = [l, n, v]" by blast
    have "run [OpPlus (NotChar CHR '':''), OpCaptureClose,
        OpLiteral CHR '':'', OpLiteral CHR '' '',
        OpCaptureOpen, OpStar AnyCharNotNL, OpCaptureClose, OpEndText] l 0 [0]
        = Some (length l, [0, length n, length n + 2, length l])"
      unfolding header_run using l nv by blast
    then show ?l
      unfolding F res using g [of n v] by (simp add: l)
  qed
qed

lemma header_no_match_iff:
  "FindStringSubmatch headerRe l = None \<longleftrightarrow>
   \<not> (\<exists>n v. l = n @ '': '' @ v \<and> n \<noteq> [] \<and> CHR '':'' \<notin> set n \<and> LF \<notin> set v)"
proof -
  have "FindStringSubmatch headerRe l \<noteq> None \<longleftrightarrow> (\<exists>res. FindStringSubmatch headerRe l = Some res)"
    by simp
  also have "\<dots> \<longleftrightarrow> (\<exists>n v. l = n @ '': '' @ v \<and> n \<noteq> [] \<and> CHR '':'' \<notin> set n \<and> LF \<notin> set v)"
    unfolding header_match_iff by blast
  finally show ?thesis by blast
qed

lemma not_header_shape_no_match: "\<not> header_shape l \<Longrightarrow> FindStringSubmatch headerRe l = None"
  unfolding header_no_match_iff header_shape_def by blast

section \<open>ParseHeaderLines\<close>

lemma loop_match:
  assumes "n \<noteq> []" "CHR '':'' \<notin> set n" "LF \<notin> set v"
  shows "ParseHeaderLines_loop ((n @ '': '' @ v) # rest) h = ParseHeaderLines_loop rest (h(n \<mapsto> v))"
proof -
  have "FindStringSubmatch headerRe (n @ '': '' @ v) = Some [n @ '': '' @ v, n, v]"
    unfolding header_match_iff using assms by blast
  moreover have "n @ '': '' @ v \<noteq> []"
    by simp
  ultimately show ?thesis
    by (simp add: index_def)
qed

lemma loop_no_match:
  assumes "l \<noteq> []" "FindStringSubmatch headerRe l = None"
  shows "ParseHeaderLines_loop (l # rest) h =
         Some (h, Some (ParseHeaderError (''header line parse failed: '' @ l)))"
  using assms by simp

lemma loop_cases:
  obtains (empty) "l = []"
  | (bad) "l \<noteq> []" "FindStringSubmatch headerRe l = None"
  | (good) n v where "l = n @ '': '' @ v" "n \<noteq> []" "CHR '':'' \<notin> set n" "LF \<notin> set v"
proof (cases "l = []")
  case True
  then show ?thesis by (rule empty)
next
  case ne: False
  show ?thesis
  proof (cases "FindStringSubmatch headerRe l")
    case None
    with ne show ?thesis by (rule bad)
  next
    case (Some res)
    then obtain n v where "l = n @ '': '' @ v" "n \<noteq> []" "CHR '':'' \<notin> set n" "LF \<notin> set v"
      unfolding header_match_iff by blast
    then show ?thesis by (rule good)
  qed
qed

lemma loop_step_good:
  assumes "l = n @ '': '' @ v" "n \<noteq> []" "CHR '':'' \<notin> set n" "LF \<notin> set v"
  shows "ParseHeaderLines_loop (l # rest) h = ParseHeaderLines_loop rest (h(n \<mapsto> v))"
  unfolding assms(1) by (rule loop_match [OF assms(2-4)])

lemma loop_total: "\<exists>h' err. ParseHeaderLines_loop ls h = Some (h', err)"
proof (induction ls arbitrary: h)
  case Nil
  show ?case by simp
next
  case (Cons l ls)
  show ?case
  proof (cases l rule: loop_cases)
    case empty
    then show ?thesis by simp
  next
    case bad
    then show ?thesis by (simp add: loop_no_match)
  next
    case (good n v)
    show ?thesis using Cons [of "h(n \<mapsto> v)"] by (simp only: loop_step_good [OF good])
  qed
qed

lemma loop_stops_at_empty:
  "[] \<notin> set pre \<Longrightarrow> ParseHeaderLines_loop (pre @ [] # rest) h = ParseHeaderLines_loop pre h"
proof (induction pre arbitrary: h)
  case Nil
  show ?case by simp
next
  case (Cons l pre)
  then have ne: "l \<noteq> []" and pre: "[] \<notin> set pre" by auto
  show ?case
  proof (cases l rule: loop_cases)
    case empty
    with ne show ?thesis by simp
  next
    case bad
    then show ?thesis by (simp add: loop_no_match)
  next
    case (good n v)
    show ?thesis using Cons.IH [OF pre, of "h(n \<mapsto> v)"] by (simp only: loop_step_good [OF good] append_Cons)
  qed
qed

lemma loop_good_prefix:
  assumes "\<forall>l\<in>set pre. l \<noteq> [] \<and> FindStringSubmatch headerRe l \<noteq> None"
  shows "\<exists>h'. ParseHeaderLines_loop pre h = Some (h', None) \<and>
           (\<forall>rest. ParseHeaderLines_loop (pre @ rest) h = ParseHeaderLines_loop rest h')"
  using assms
proof (induction pre arbitrary: h)
  case Nil
  show ?case by simp
next
  case (Cons l pre)
  then have ne: "l \<noteq> []" and m: "FindStringSubmatch headerRe l \<noteq> None"
    and pre: "\<forall>l\<in>set pre. l \<noteq> [] \<and> FindStringSubmatch headerRe l \<noteq> None" by auto
  show ?case
  proof (cases l rule: loop_cases)
    case empty
    with ne show ?thesis by simp
  next
    case bad
    with m show ?thesis by simp
  next
    case (good n v)
    show ?thesis using Cons.IH [OF pre, of "h(n \<mapsto> v)"] by (simp only: loop_step_good [OF good] append_Cons)
  qed
qed

lemma header_split_unique:
  assumes "n @ '': '' @ v = n' @ '': '' @ v'" "CHR '':'' \<notin> set n" "CHR '':'' \<notin> set n'"
  shows "n = n' \<and> v = v'"
proof -
  have tw: "takeWhile (\<lambda>c. c \<noteq> CHR '':'') (m @ '': '' @ w) = m" if "CHR '':'' \<notin> set m" for m w
    using that by (induction m) auto
  from assms(1) have "takeWhile (\<lambda>c. c \<noteq> CHR '':'') (n @ '': '' @ v)
      = takeWhile (\<lambda>c. c \<noteq> CHR '':'') (n' @ '': '' @ v')"
    by (rule arg_cong)
  then have "n = n'"
    by (simp only: tw [OF assms(2)] tw [OF assms(3)])
  with assms(1) show ?thesis by simp
qed

lemma loop_takeWhile:
  "ParseHeaderLines_loop ls h = ParseHeaderLines_loop (takeWhile (\<lambda>l. l \<noteq> []) ls) h"
proof (cases "dropWhile (\<lambda>l. l \<noteq> []) ls")
  case Nil
  then have tw: "takeWhile (\<lambda>l. l \<noteq> []) ls = ls"
    by (simp only: dropWhile_eq_Nil_conv takeWhile_eq_all_conv)
  show ?thesis unfolding tw ..
next
  case (Cons x rest)
  then have c: "ls = takeWhile (\<lambda>l. l \<noteq> []) ls @ x # rest \<and> \<not> x \<noteq> []"
    by (rule dropWhile_eq_Cons_conv [THEN iffD1])
  from c have x: "x = []"
    by blast
  from c have "ls = takeWhile (\<lambda>l. l \<noteq> []) ls @ x # rest"
    by (rule conjunct1)
  then have "takeWhile (\<lambda>l. l \<noteq> []) ls @ x # rest = ls"
    by (rule sym)
  then have ls: "takeWhile (\<lambda>l. l \<noteq> []) ls @ [] # rest = ls"
    unfolding x .
  have "[] \<notin> set (takeWhile (\<lambda>l. l \<noteq> []) ls)"
    by (auto dest: set_takeWhileD)
  then have "ParseHeaderLines_loop (takeWhile (\<lambda>l. l \<noteq> []) ls @ [] # rest) h
      = ParseHeaderLines_loop (takeWhile (\<lambda>l. l \<noteq> []) ls) h"
    by (rule loop_stops_at_empty)
  then show ?thesis unfolding ls .
qed

lemma loop_frame:
  assumes "\<forall>l\<in>set ls. \<nexists>v'. l = name @ '': '' @ v'"
    and "ParseHeaderLines_loop ls h = Some (h', err)"
  shows "h' name = h name"
  using assms
proof (induction ls arbitrary: h)
  case Nil
  then show ?case by simp
next
  case (Cons l ls)
  from Cons.prems(1) have l: "\<nexists>v'. l = name @ '': '' @ v'"
    and ls: "\<forall>l\<in>set ls. \<nexists>v'. l = name @ '': '' @ v'" by simp_all
  show ?case
  proof (cases l rule: loop_cases)
    case empty
    with Cons.prems(2) show ?thesis by simp
  next
    case bad
    with Cons.prems(2) show ?thesis by (simp add: loop_no_match)
  next
    case (good n v)
    from l good(1) have "n \<noteq> name" by blast
    moreover from Cons.prems(2) have "ParseHeaderLines_loop ls (h(n \<mapsto> v)) = Some (h', err)"
      by (simp only: loop_step_good [OF good])
    then have "h' name = (h(n \<mapsto> v)) name"
      by (rule Cons.IH [OF ls])
    ultimately show ?thesis by simp
  qed
qed

lemma loop_success_all_match:
  assumes "ParseHeaderLines_loop ls h = Some (h', None)"
  shows "\<forall>l\<in>set (takeWhile (\<lambda>l. l \<noteq> []) ls). FindStringSubmatch headerRe l \<noteq> None"
  using assms
proof (induction ls arbitrary: h)
  case Nil
  show ?case by simp
next
  case (Cons l ls)
  show ?case
  proof (cases l rule: loop_cases)
    case empty
    then show ?thesis by simp
  next
    case bad
    with Cons.prems show ?thesis by (simp add: loop_no_match)
  next
    case (good n v)
    from Cons.prems have "ParseHeaderLines_loop ls (h(n \<mapsto> v)) = Some (h', None)"
      by (simp only: loop_step_good [OF good])
    then have "\<forall>l\<in>set (takeWhile (\<lambda>l. l \<noteq> []) ls). FindStringSubmatch headerRe l \<noteq> None"
      by (rule Cons.IH)
    moreover have "FindStringSubmatch headerRe l \<noteq> None"
      using good header_no_match_iff [of l] by blast
    ultimately show ?thesis by auto
  qed
qed

lemma loop_last_wins:
  assumes ok: "ParseHeaderLines_loop ls h = Some (h', None)"
    and pre: "takeWhile (\<lambda>l. l \<noteq> []) ls = before @ (name @ '': '' @ v) # after"
    and name: "CHR '':'' \<notin> set name"
    and after: "\<forall>l\<in>set after. \<nexists>v'. l = name @ '': '' @ v'"
  shows "h' name = Some v"
proof -
  let ?line = "name @ '': '' @ v"
  from loop_success_all_match [OF ok]
  have all: "\<forall>l\<in>set (before @ ?line # after). FindStringSubmatch headerRe l \<noteq> None"
    unfolding pre .
  have "\<forall>l\<in>set (takeWhile (\<lambda>l. l \<noteq> []) ls). l \<noteq> []"
    by (auto dest: set_takeWhileD)
  then have ne: "\<forall>l\<in>set (before @ ?line # after). l \<noteq> []"
    unfolding pre .
  from all ne have "\<forall>l\<in>set before. l \<noteq> [] \<and> FindStringSubmatch headerRe l \<noteq> None"
    by simp
  from loop_good_prefix [OF this, of h] obtain h1
    where h1: "\<And>rest. ParseHeaderLines_loop (before @ rest) h = ParseHeaderLines_loop rest h1"
    by blast
  from all have "FindStringSubmatch headerRe ?line \<noteq> None" by simp
  then have "\<exists>n' v'. ?line = n' @ '': '' @ v' \<and> n' \<noteq> [] \<and> CHR '':'' \<notin> set n' \<and> LF \<notin> set v'"
    unfolding header_no_match_iff by (rule notnotD)
  then obtain n' where "\<exists>v'. ?line = n' @ '': '' @ v' \<and> n' \<noteq> [] \<and> CHR '':'' \<notin> set n' \<and> LF \<notin> set v'" ..
  then obtain v' where c: "?line = n' @ '': '' @ v' \<and> n' \<noteq> [] \<and> CHR '':'' \<notin> set n' \<and> LF \<notin> set v'" ..
  have e: "?line = n' @ '': '' @ v'"
    by (rule conjunct1 [OF c])
  have nv: "n' \<noteq> []" "CHR '':'' \<notin> set n'" "LF \<notin> set v'"
    by (rule conjunct1 [OF conjunct2 [OF c]], rule conjunct1 [OF conjunct2 [OF conjunct2 [OF c]]],
        rule conjunct2 [OF conjunct2 [OF conjunct2 [OF c]]])
  from header_split_unique [OF e name nv(2)] have "n' = name" "v' = v" by simp_all
  with nv have good: "name \<noteq> []" "CHR '':'' \<notin> set name" "LF \<notin> set v" by simp_all
  have "ParseHeaderLines_loop ls h = ParseHeaderLines_loop (before @ ?line # after) h"
    using loop_takeWhile [of ls h] unfolding pre .
  also have "\<dots> = ParseHeaderLines_loop (?line # after) h1"
    by (rule h1)
  also have "\<dots> = ParseHeaderLines_loop after (h1(name \<mapsto> v))"
    by (rule loop_match [OF good])
  finally have "ParseHeaderLines_loop after (h1(name \<mapsto> v)) = Some (h', None)"
    using ok by simp
  from loop_frame [OF after this] show ?thesis by simp
qed

lemma loop_absent:
  assumes ok: "ParseHeaderLines_loop ls h = Some (h', err)"
    and no: "\<forall>l\<in>set (takeWhile (\<lambda>l. l \<noteq> []) ls). \<nexists>v'. l = name @ '': '' @ v'"
  shows "h' name = h name"
proof -
  from ok have "ParseHeaderLines_loop (takeWhile (\<lambda>l. l \<noteq> []) ls) h = Some (h', err)"
    by (simp only: loop_takeWhile [of ls h, symmetric])
  from loop_frame [OF no this] show ?thesis .
qed

lemma loop_kvs:
  assumes "\<forall>(n, v)\<in>set kvs. n \<noteq> [] \<and> CHR '':'' \<notin> set n \<and> LF \<notin> set v"
  shows "ParseHeaderLines_loop (map (\<lambda>(n, v). n @ '': '' @ v) kvs @ rest) h =
         ParseHeaderLines_loop rest (h ++ map_of (rev kvs))"
  using assms
proof (induction kvs arbitrary: h)
  case Nil
  show ?case by simp
next
  case (Cons kv kvs)
  obtain n v where kv: "kv = (n, v)"
    by (cases kv)
  from Cons.prems have good: "n \<noteq> []" "CHR '':'' \<notin> set n" "LF \<notin> set v"
    and tl: "\<forall>(n, v)\<in>set kvs. n \<noteq> [] \<and> CHR '':'' \<notin> set n \<and> LF \<notin> set v"
    by (simp_all add: kv)
  have "ParseHeaderLines_loop (map (\<lambda>(n, v). n @ '': '' @ v) (kv # kvs) @ rest) h =
        ParseHeaderLines_loop (map (\<lambda>(n, v). n @ '': '' @ v) kvs @ rest) (h(n \<mapsto> v))"
    unfolding kv using loop_match [OF good] by simp
  also have "\<dots> = ParseHeaderLines_loop rest (h(n \<mapsto> v) ++ map_of (rev kvs))"
    by (rule Cons.IH [OF tl])
  also have "h(n \<mapsto> v) ++ map_of (rev kvs) = h ++ map_of (rev (kv # kvs))"
    unfolding kv by (rule ext) (simp add: map_add_def split: option.splits)
  finally show ?case .
qed

lemma ParseHeaderLines_kvs:
  assumes "\<forall>(n, v)\<in>set kvs. n \<noteq> [] \<and> CHR '':'' \<notin> set n \<and> LF \<notin> set v"
  shows "ParseHeaderLines (map (\<lambda>(n, v). n @ '': '' @ v) kvs @ rest) =
         ParseHeaderLines_loop rest (map_of (rev kvs))"
  unfolding ParseHeaderLines_def loop_kvs [OF assms] by simp

subsection \<open>The claims on ParseHeaderLines\<close>

lemma header_shape_has_colon: "header_shape l \<Longrightarrow> CHR '':'' \<in> set l"
  unfolding header_shape_def by auto

text \<open>
  C3. The scan stops at the first empty line. A first empty line gives the empty map and
  no error. An empty line after lines \<open>pre\<close>, none of them empty, gives what the lines
  \<open>pre\<close> alone give, whatever the lines \<open>rest\<close> after it are: they are never examined and
  cannot make the call fail. When moreover every line of \<open>pre\<close> matches the pattern, the
  call returns no error. The map it returns is the one the lines before the empty line
  spell out: for lines \<^verbatim>\<open>n: v\<close> given by the list \<open>kvs\<close> of their names and values (a name
  not empty and without a colon, a value without a line feed), it is \<open>map_of (rev kvs)\<close>,
  every name bound to its last value.
\<close>

theorem ParseHeaderLines_stops_at_first_empty_line:
  "ParseHeaderLines ([] # rest) = Some (Map.empty, None)
   \<and> ([] \<notin> set pre \<longrightarrow> ParseHeaderLines (pre @ [] # rest) = ParseHeaderLines pre)
   \<and> ([] \<notin> set pre \<and> (\<forall>l\<in>set pre. FindStringSubmatch headerRe l \<noteq> None) \<longrightarrow>
        (\<exists>h. ParseHeaderLines pre = Some (h, None)
           \<and> ParseHeaderLines (pre @ [] # rest) = Some (h, None)))
   \<and> ((\<forall>(n, v)\<in>set kvs. n \<noteq> [] \<and> CHR '':'' \<notin> set n \<and> LF \<notin> set v) \<longrightarrow>
        ParseHeaderLines (map (\<lambda>(n, v). n @ '': '' @ v) kvs @ [] # rest)
          = Some (map_of (rev kvs), None))"
proof (intro conjI impI)
  show "ParseHeaderLines ([] # rest) = Some (Map.empty, None)"
    by (simp add: ParseHeaderLines_def)
next
  assume "[] \<notin> set pre"
  then show "ParseHeaderLines (pre @ [] # rest) = ParseHeaderLines pre"
    unfolding ParseHeaderLines_def by (rule loop_stops_at_empty)
next
  assume a: "[] \<notin> set pre \<and> (\<forall>l\<in>set pre. FindStringSubmatch headerRe l \<noteq> None)"
  then have "\<forall>l\<in>set pre. l \<noteq> [] \<and> FindStringSubmatch headerRe l \<noteq> None"
    by auto
  from loop_good_prefix [OF this, of Map.empty] obtain h
    where h: "ParseHeaderLines_loop pre Map.empty = Some (h, None)"
      and r: "\<And>rest. ParseHeaderLines_loop (pre @ rest) Map.empty = ParseHeaderLines_loop rest h"
    by blast
  have "ParseHeaderLines_loop (pre @ [] # rest) Map.empty = Some (h, None)"
    unfolding r by simp
  with h show "\<exists>h. ParseHeaderLines pre = Some (h, None)
           \<and> ParseHeaderLines (pre @ [] # rest) = Some (h, None)"
    unfolding ParseHeaderLines_def by blast
next
  assume kvs: "\<forall>(n, v)\<in>set kvs. n \<noteq> [] \<and> CHR '':'' \<notin> set n \<and> LF \<notin> set v"
  show "ParseHeaderLines (map (\<lambda>(n, v). n @ '': '' @ v) kvs @ [] # rest)
          = Some (map_of (rev kvs), None)"
    unfolding ParseHeaderLines_kvs [OF kvs] by simp
qed

lemma header_A1: "FindStringSubmatch headerRe ''A: 1'' = Some [''A: 1'', ''A'', ''1'']"
  by code_simp

lemma example_map:
  "map_of (rev [(''A'', ''1''), (''B'', ''2''), (''A'', ''3'')]) = [''B'' \<mapsto> ''2'', ''A'' \<mapsto> ''3'']"
  by (rule ext) simp

theorem ParseHeaderLines_stops_at_first_empty_line_witness:
  "ParseHeaderLines [''A: 1'', ''B: 2'', ''A: 3'', [], ''BadLineNoColon'', ''C: 4'']
     = Some ([''B'' \<mapsto> ''2'', ''A'' \<mapsto> ''3''], None)
   \<and> ParseHeaderLines [''A: 1'', [], ''BadLineNoColon'', ''B: 2''] = Some ([''A'' \<mapsto> ''1''], None)
   \<and> ParseHeaderLines [[], ''BadLineNoColon''] = Some (Map.empty, None)"
proof -
  let ?kvs = "[(''A'', ''1''), (''B'', ''2''), (''A'', ''3'')]"
  have 0: "\<forall>(n, v)\<in>set ?kvs. n \<noteq> [] \<and> CHR '':'' \<notin> set n \<and> LF \<notin> set v"
    by simp
  from ParseHeaderLines_stops_at_first_empty_line [of "[''BadLineNoColon'', ''C: 4'']" "[]" ?kvs] 0
  have "ParseHeaderLines (map (\<lambda>(n, v). n @ '': '' @ v) ?kvs @ [] # [''BadLineNoColon'', ''C: 4''])
          = Some (map_of (rev ?kvs), None)"
    by blast
  then have a: "ParseHeaderLines [''A: 1'', ''B: 2'', ''A: 3'', [], ''BadLineNoColon'', ''C: 4'']
     = Some ([''B'' \<mapsto> ''2'', ''A'' \<mapsto> ''3''], None)"
    unfolding example_map by simp
  have 1: "ParseHeaderLines [''A: 1''] = Some ([''A'' \<mapsto> ''1''], None)"
    by (simp add: ParseHeaderLines_def header_A1 index_def)
  have 2: "[] \<notin> set [''A: 1''] \<and> (\<forall>l\<in>set [''A: 1'']. FindStringSubmatch headerRe l \<noteq> None)"
    by (simp add: header_A1)
  from ParseHeaderLines_stops_at_first_empty_line [of "[''BadLineNoColon'', ''B: 2'']" "[''A: 1'']"] 2
  have "\<exists>h. ParseHeaderLines [''A: 1''] = Some (h, None)
           \<and> ParseHeaderLines ([''A: 1''] @ [] # [''BadLineNoColon'', ''B: 2'']) = Some (h, None)"
    by blast
  with 1 have b: "ParseHeaderLines [''A: 1'', [], ''BadLineNoColon'', ''B: 2''] = Some ([''A'' \<mapsto> ''1''], None)"
    by auto
  from ParseHeaderLines_stops_at_first_empty_line [of "[''BadLineNoColon'']" "[]"]
  have c: "ParseHeaderLines [[], ''BadLineNoColon''] = Some (Map.empty, None)"
    by blast
  from a b c show ?thesis by blast
qed

text \<open>
  C4. When the scan reaches a line \<open>bad\<close> (every line before it is non-empty and matches
  the pattern) that is not empty and has not the shape \<^verbatim>\<open>name: value\<close>, the call returns a
  \<open>ParseHeaderError\<close> whose text ends with exactly that line, together with exactly the
  map the lines before it give; the lines after it play no role. For lines \<^verbatim>\<open>n: v\<close> before
  it, given by the list \<open>kvs\<close> of their names and values, that map is \<open>map_of (rev kvs)\<close>.
\<close>

theorem ParseHeaderLines_fails_at_malformed_line:
  "((\<forall>l\<in>set pre. l \<noteq> [] \<and> FindStringSubmatch headerRe l \<noteq> None)
      \<and> bad \<noteq> [] \<and> \<not> header_shape bad \<longrightarrow>
     (\<exists>h. ParseHeaderLines pre = Some (h, None)
        \<and> ParseHeaderLines (pre @ bad # rest) =
            Some (h, Some (ParseHeaderError (''header line parse failed: '' @ bad)))))
   \<and> ((\<forall>(n, v)\<in>set kvs. n \<noteq> [] \<and> CHR '':'' \<notin> set n \<and> LF \<notin> set v)
      \<and> bad \<noteq> [] \<and> \<not> header_shape bad \<longrightarrow>
     ParseHeaderLines (map (\<lambda>(n, v). n @ '': '' @ v) kvs @ bad # rest) =
       Some (map_of (rev kvs), Some (ParseHeaderError (''header line parse failed: '' @ bad))))"
proof (intro conjI impI)
  assume a: "(\<forall>l\<in>set pre. l \<noteq> [] \<and> FindStringSubmatch headerRe l \<noteq> None)
      \<and> bad \<noteq> [] \<and> \<not> header_shape bad"
  then have pre: "\<forall>l\<in>set pre. l \<noteq> [] \<and> FindStringSubmatch headerRe l \<noteq> None"
    and ne: "bad \<noteq> []" and shape: "\<not> header_shape bad"
    by blast+
  from loop_good_prefix [OF pre, of Map.empty] obtain h
    where h: "ParseHeaderLines_loop pre Map.empty = Some (h, None)"
      and r: "\<And>rest. ParseHeaderLines_loop (pre @ rest) Map.empty = ParseHeaderLines_loop rest h"
    by blast
  have "FindStringSubmatch headerRe bad = None"
    using shape by (rule not_header_shape_no_match)
  with ne have "ParseHeaderLines_loop (bad # rest) h =
      Some (h, Some (ParseHeaderError (''header line parse failed: '' @ bad)))"
    by (rule loop_no_match)
  with h show "\<exists>h. ParseHeaderLines pre = Some (h, None)
        \<and> ParseHeaderLines (pre @ bad # rest) =
            Some (h, Some (ParseHeaderError (''header line parse failed: '' @ bad)))"
    unfolding ParseHeaderLines_def r by blast
next
  assume a: "(\<forall>(n, v)\<in>set kvs. n \<noteq> [] \<and> CHR '':'' \<notin> set n \<and> LF \<notin> set v)
      \<and> bad \<noteq> [] \<and> \<not> header_shape bad"
  then have kvs: "\<forall>(n, v)\<in>set kvs. n \<noteq> [] \<and> CHR '':'' \<notin> set n \<and> LF \<notin> set v"
    and ne: "bad \<noteq> []" and shape: "\<not> header_shape bad"
    by blast+
  have "FindStringSubmatch headerRe bad = None"
    using shape by (rule not_header_shape_no_match)
  with ne have "ParseHeaderLines_loop (bad # rest) (map_of (rev kvs)) =
      Some (map_of (rev kvs), Some (ParseHeaderError (''header line parse failed: '' @ bad)))"
    by (rule loop_no_match)
  then show "ParseHeaderLines (map (\<lambda>(n, v). n @ '': '' @ v) kvs @ bad # rest) =
       Some (map_of (rev kvs), Some (ParseHeaderError (''header line parse failed: '' @ bad)))"
    unfolding ParseHeaderLines_kvs [OF kvs] .
qed

theorem ParseHeaderLines_fails_at_malformed_line_witness:
  "ParseHeaderLines [''A: 1'', ''B: 2'', ''A: 3'', ''BadLineNoColon'', ''C: 4'', []] =
     Some ([''B'' \<mapsto> ''2'', ''A'' \<mapsto> ''3''],
           Some (ParseHeaderError ''header line parse failed: BadLineNoColon''))
   \<and> ParseHeaderLines [''A: 1'', ''BadLineNoColon'', ''B: 2'', []] =
     Some ([''A'' \<mapsto> ''1''], Some (ParseHeaderError ''header line parse failed: BadLineNoColon''))"
proof -
  let ?kvs = "[(''A'', ''1''), (''B'', ''2''), (''A'', ''3'')]"
  have 0: "\<forall>(n, v)\<in>set ?kvs. n \<noteq> [] \<and> CHR '':'' \<notin> set n \<and> LF \<notin> set v"
    by simp
  have 1: "ParseHeaderLines [''A: 1''] = Some ([''A'' \<mapsto> ''1''], None)"
    by (simp add: ParseHeaderLines_def header_A1 index_def)
  have 2: "\<forall>l\<in>set [''A: 1'']. l \<noteq> [] \<and> FindStringSubmatch headerRe l \<noteq> None"
    by (simp add: header_A1)
  have 3: "''BadLineNoColon'' \<noteq> []"
    by simp
  have 4: "\<not> header_shape ''BadLineNoColon''"
    using header_shape_has_colon [of "''BadLineNoColon''"] by auto
  from ParseHeaderLines_fails_at_malformed_line [of "[]" "''BadLineNoColon''" "[''C: 4'', []]" ?kvs] 0 3 4
  have "ParseHeaderLines (map (\<lambda>(n, v). n @ '': '' @ v) ?kvs @ ''BadLineNoColon'' # [''C: 4'', []]) =
       Some (map_of (rev ?kvs), Some (ParseHeaderError (''header line parse failed: '' @ ''BadLineNoColon'')))"
    by blast
  then have a: "ParseHeaderLines [''A: 1'', ''B: 2'', ''A: 3'', ''BadLineNoColon'', ''C: 4'', []] =
     Some ([''B'' \<mapsto> ''2'', ''A'' \<mapsto> ''3''],
           Some (ParseHeaderError ''header line parse failed: BadLineNoColon''))"
    unfolding example_map by simp
  from ParseHeaderLines_fails_at_malformed_line [of "[''A: 1'']" "''BadLineNoColon''" "[''B: 2'', []]"] 2 3 4
  have "\<exists>h. ParseHeaderLines [''A: 1''] = Some (h, None)
        \<and> ParseHeaderLines ([''A: 1''] @ ''BadLineNoColon'' # [''B: 2'', []]) =
            Some (h, Some (ParseHeaderError (''header line parse failed: '' @ ''BadLineNoColon'')))"
    by blast
  with 1 have b: "ParseHeaderLines [''A: 1'', ''BadLineNoColon'', ''B: 2'', []] =
     Some ([''A'' \<mapsto> ''1''], Some (ParseHeaderError ''header line parse failed: BadLineNoColon''))"
    by auto
  from a b show ?thesis by blast
qed

lemma header_A2: "FindStringSubmatch headerRe ''A: 2'' = Some [''A: 2'', ''A'', ''2'']"
  by code_simp

lemma header_Bx: "FindStringSubmatch headerRe ''B: x'' = Some [''B: x'', ''B'', ''x'']"
  by code_simp

lemma Split_A1_A2:
  "Split (''A: 1'' @ CRLF @ ''A: 2'' @ CRLF @ CRLF) CRLF = [''A: 1'', ''A: 2'', [], []]"
  by code_simp

text \<open>
  C5. A later line for a name overwrites an earlier one. After a successful call, let
  the lines before the first empty line be \<open>before\<close>, the line \<^verbatim>\<open>name: v\<close> and \<open>after\<close>, with
  no line for \<open>name\<close> in \<open>after\<close>: then the map binds \<open>name\<close> to \<open>v\<close>. A name with no line
  before the first empty line is not bound. The header lines of
  \<^verbatim>\<open>"A: 1\r\nA: 2\r\n\r\n"\<close> give exactly the map that binds \<^verbatim>\<open>A\<close> to \<^verbatim>\<open>2\<close>.
\<close>

theorem ParseHeaderLines_last_occurrence_wins:
  "(ParseHeaderLines ls = Some (h, None)
      \<and> takeWhile (\<lambda>l. l \<noteq> []) ls = before @ (name @ '': '' @ v) # after
      \<and> CHR '':'' \<notin> set name
      \<and> (\<forall>l\<in>set after. \<nexists>v'. l = name @ '': '' @ v')
     \<longrightarrow> h name = Some v)
   \<and> (ParseHeaderLines ls = Some (h, None)
      \<and> (\<forall>l\<in>set (takeWhile (\<lambda>l. l \<noteq> []) ls). \<nexists>v'. l = name @ '': '' @ v')
     \<longrightarrow> h name = None)
   \<and> ParseHeaderLines (Split (''A: 1'' @ CRLF @ ''A: 2'' @ CRLF @ CRLF) CRLF)
       = Some ([''A'' \<mapsto> ''2''], None)"
proof (intro conjI impI)
  assume a: "ParseHeaderLines ls = Some (h, None)
      \<and> takeWhile (\<lambda>l. l \<noteq> []) ls = before @ (name @ '': '' @ v) # after
      \<and> CHR '':'' \<notin> set name
      \<and> (\<forall>l\<in>set after. \<nexists>v'. l = name @ '': '' @ v')"
  have 1: "ParseHeaderLines_loop ls Map.empty = Some (h, None)"
    using a unfolding ParseHeaderLines_def by (rule conjunct1)
  have 2: "takeWhile (\<lambda>l. l \<noteq> []) ls = before @ (name @ '': '' @ v) # after"
    using a by (rule conjunct1 [OF conjunct2])
  have 3: "CHR '':'' \<notin> set name"
    using a by (rule conjunct1 [OF conjunct2 [OF conjunct2]])
  have 4: "\<forall>l\<in>set after. \<nexists>v'. l = name @ '': '' @ v'"
    using a by (rule conjunct2 [OF conjunct2 [OF conjunct2]])
  show "h name = Some v"
    by (rule loop_last_wins [OF 1 2 3 4])
next
  assume a: "ParseHeaderLines ls = Some (h, None)
      \<and> (\<forall>l\<in>set (takeWhile (\<lambda>l. l \<noteq> []) ls). \<nexists>v'. l = name @ '': '' @ v')"
  have 1: "ParseHeaderLines_loop ls Map.empty = Some (h, None)"
    using a unfolding ParseHeaderLines_def by (rule conjunct1)
  have 2: "\<forall>l\<in>set (takeWhile (\<lambda>l. l \<noteq> []) ls). \<nexists>v'. l = name @ '': '' @ v'"
    using a by (rule conjunct2)
  from loop_absent [OF 1 2] show "h name = None"
    by simp
next
  show "ParseHeaderLines (Split (''A: 1'' @ CRLF @ ''A: 2'' @ CRLF @ CRLF) CRLF)
       = Some ([''A'' \<mapsto> ''2''], None)"
    unfolding Split_A1_A2 by (simp add: ParseHeaderLines_def header_A1 header_A2 index_def)
qed

theorem ParseHeaderLines_last_occurrence_wins_witness:
  "ParseHeaderLines [''A: 1'', ''A: 2'', ''B: x'', [], ''A: 3'']
     = Some ([''A'' \<mapsto> ''2'', ''B'' \<mapsto> ''x''], None)
   \<and> [''A'' \<mapsto> ''2'', ''B'' \<mapsto> ''x''] ''A'' = Some ''2''
   \<and> [''A'' \<mapsto> ''2'', ''B'' \<mapsto> ''x''] ''C'' = None"
proof -
  let ?ls = "[''A: 1'', ''A: 2'', ''B: x'', [], ''A: 3'']"
  let ?h = "[''A'' \<mapsto> ''2'', ''B'' \<mapsto> ''x'']"
  have 1: "ParseHeaderLines ?ls = Some (?h, None)"
    by (simp add: ParseHeaderLines_def header_A1 header_A2 header_Bx index_def)
  have 2: "takeWhile (\<lambda>l. l \<noteq> []) ?ls = [''A: 1''] @ (''A'' @ '': '' @ ''2'') # [''B: x'']"
    by simp
  have 3: "CHR '':'' \<notin> set ''A''"
    by simp
  have 4: "\<forall>l\<in>set [''B: x'']. \<nexists>v'. l = ''A'' @ '': '' @ v'"
    by simp
  have 5: "\<forall>l\<in>set (takeWhile (\<lambda>l. l \<noteq> []) ?ls). \<nexists>v'. l = ''C'' @ '': '' @ v'"
    by simp
  from ParseHeaderLines_last_occurrence_wins
         [of ?ls ?h "[''A: 1'']" "''A''" "''2''" "[''B: x'']"] 1 2 3 4
  have "?h ''A'' = Some ''2''"
    by blast
  moreover from ParseHeaderLines_last_occurrence_wins [of ?ls ?h _ "''C''"] 1 5
  have "?h ''C'' = None"
    by blast
  ultimately show ?thesis
    using 1 by blast
qed

section \<open>ParseRequest and ParseResponse\<close>

lemma Split_nonempty: "sep \<noteq> [] \<Longrightarrow> \<exists>line0 rest. Split s sep = line0 # rest"
  by (subst Split.simps) (simp split: option.splits)

lemma ParseHeaderLines_total: "\<exists>h err. ParseHeaderLines ls = Some (h, err)"
  unfolding ParseHeaderLines_def by (rule loop_total)

lemma ParseRequest_total: "\<exists>req err. ParseRequest s = Some (req, err)"
proof -
  obtain line0 hl where sp: "Split s CRLF = line0 # hl"
    using Split_nonempty [of CRLF s] by auto
  obtain h herr where hl: "ParseHeaderLines hl = Some (h, herr)"
    using ParseHeaderLines_total by blast
  show ?thesis
  proof (cases "FindStringSubmatch requestLineRe line0")
    case None
    then show ?thesis
      by (simp add: ParseRequest_def sp index_def slice_from_def)
  next
    case (Some res)
    then obtain a b c where res: "res = [a, b, c]"
      using requestLine_length by blast
    show ?thesis
      by (cases "ToMethod b")
        (auto simp: ParseRequest_def sp index_def slice_from_def Some res hl Let_def)
  qed
qed

lemma ParseResponse_total: "\<exists>resp err. ParseResponse s = Some (resp, err)"
proof -
  obtain line0 hl where sp: "Split s CRLF = line0 # hl"
    using Split_nonempty [of CRLF s] by auto
  obtain h herr where hl: "ParseHeaderLines hl = Some (h, herr)"
    using ParseHeaderLines_total by blast
  show ?thesis
  proof (cases "FindStringSubmatch statusLineRe line0")
    case None
    then show ?thesis
      by (simp add: ParseResponse_def sp index_def slice_from_def)
  next
    case (Some res)
    then obtain a b c d where res: "res = [a, b, c, d]"
      using statusLine_length by blast
    show ?thesis
      by (cases "Atoi c")
        (auto simp: ParseResponse_def sp index_def slice_from_def Some res hl Let_def)
  qed
qed

lemma ParseRequest_Protocol:
  "ParseRequest s = Some (req, err) \<Longrightarrow> Request.Protocol req = SHIORI"
  by (auto simp: ParseRequest_def Let_def split: option.splits prod.splits if_splits Option.bind_splits)

lemma ParseResponse_Protocol:
  "ParseResponse s = Some (resp, err) \<Longrightarrow> Response.Protocol resp = SHIORI"
  by (auto simp: ParseResponse_def Let_def split: option.splits prod.splits if_splits Option.bind_splits)

subsection \<open>The claims on ParseRequest, on the protocol and on totality\<close>

lemma Split_request_GET:
  "Split (''GET SHIORI/2.6'' @ CRLF @ ''Sender: test'' @ CRLF @ CRLF) CRLF
     = [''GET SHIORI/2.6'', ''Sender: test'', [], []]"
  by code_simp

lemma requestLine_GET:
  "FindStringSubmatch requestLineRe ''GET SHIORI/2.6'' = Some [''GET SHIORI/2.6'', ''GET'', ''2.6'']"
  by code_simp

lemma header_Sender_test:
  "FindStringSubmatch headerRe ''Sender: test'' = Some [''Sender: test'', ''Sender'', ''test'']"
  by code_simp

text \<open>
  C1. On the input \<^verbatim>\<open>"GET SHIORI/2.6\r\nSender: test\r\n\r\n"\<close> \<open>ParseRequest\<close> returns, with a
  nil error, the request with method \<open>GET\<close>, protocol \<open>SHIORI\<close>, version \<^verbatim>\<open>2.6\<close> and the
  headers that bind \<^verbatim>\<open>Sender\<close> to \<^verbatim>\<open>test\<close> and nothing else.
\<close>

theorem ParseRequest_GET_Sender:
  "ParseRequest (''GET SHIORI/2.6'' @ CRLF @ ''Sender: test'' @ CRLF @ CRLF) =
     Some (\<lparr>Method = GET, Protocol = SHIORI, Version = ''2.6'',
            Headers = [''Sender'' \<mapsto> ''test'']\<rparr>, None)"
proof -
  have hl: "ParseHeaderLines [''Sender: test'', [], []] = Some ([''Sender'' \<mapsto> ''test''], None)"
    by (simp add: ParseHeaderLines_def header_Sender_test index_def)
  have m: "ToMethod ''GET'' = (GET, None)"
    by (simp add: ToMethod_def)
  show ?thesis
    unfolding ParseRequest_def Split_request_GET
    by (simp add: index_def slice_from_def requestLine_GET m hl)
qed

theorem ParseRequest_GET_Sender_witness:
  "Request_Sender (fst (the (ParseRequest (''GET SHIORI/2.6'' @ CRLF @ ''Sender: test'' @ CRLF @ CRLF))))
     = ''test''
   \<and> Method_String (Method (fst (the (ParseRequest
         (''GET SHIORI/2.6'' @ CRLF @ ''Sender: test'' @ CRLF @ CRLF))))) = ''GET''"
  unfolding ParseRequest_GET_Sender
  by (simp add: Request_Sender_def lookup_def Method_String_def)

lemma Split_request_NOTIFY:
  "Split (''NOTIFY SHIORI/3.0'' @ CRLF @ CRLF) CRLF = [''NOTIFY SHIORI/3.0'', [], []]"
  by code_simp

lemma requestLine_NOTIFY:
  "FindStringSubmatch requestLineRe ''NOTIFY SHIORI/3.0''
     = Some [''NOTIFY SHIORI/3.0'', ''NOTIFY'', ''3.0'']"
  by code_simp

lemma ParseRequest_NOTIFY:
  "ParseRequest (''NOTIFY SHIORI/3.0'' @ CRLF @ CRLF) =
     Some (\<lparr>Method = NOTIFY, Protocol = SHIORI, Version = ''3.0'', Headers = Map.empty\<rparr>, None)"
proof -
  have hl: "ParseHeaderLines [[], []] = Some (Map.empty, None)"
    by (simp add: ParseHeaderLines_def)
  have m: "ToMethod ''NOTIFY'' = (NOTIFY, None)"
    by (simp add: ToMethod_def)
  show ?thesis
    unfolding ParseRequest_def Split_request_NOTIFY
    by (simp add: index_def slice_from_def requestLine_NOTIFY m hl)
qed

lemma Split_response_200:
  "Split (''SHIORI/3.0 200 OK'' @ CRLF @ CRLF) CRLF = [''SHIORI/3.0 200 OK'', [], []]"
  by code_simp

lemma statusLine_200:
  "FindStringSubmatch statusLineRe ''SHIORI/3.0 200 OK''
     = Some [''SHIORI/3.0 200 OK'', ''3.0'', ''200'', ''OK'']"
  by code_simp

lemma Atoi_200: "Atoi ''200'' = (200, None)"
  by code_simp

lemma ParseResponse_200:
  "ParseResponse (''SHIORI/3.0 200 OK'' @ CRLF @ CRLF) =
     Some (\<lparr>Code = 200, Protocol = SHIORI, Version = ''3.0'', Headers = Map.empty\<rparr>, None)"
proof -
  have hl: "ParseHeaderLines [[], []] = Some (Map.empty, None)"
    by (simp add: ParseHeaderLines_def)
  show ?thesis
    unfolding ParseResponse_def Split_response_200
    by (simp add: index_def slice_from_def statusLine_200 Atoi_200 hl)
qed

text \<open>
  C8. Whenever \<open>ParseRequest\<close> or \<open>ParseResponse\<close> returns a nil error, the protocol of the
  value returned is \<open>SHIORI\<close>.
\<close>

theorem parsed_Protocol_is_SHIORI:
  "(ParseRequest s = Some (request, None) \<longrightarrow> Request.Protocol request = SHIORI)
   \<and> (ParseResponse s = Some (response, None) \<longrightarrow> Response.Protocol response = SHIORI)"
  using ParseRequest_Protocol [of s request None] ParseResponse_Protocol [of s response None]
  by blast

theorem parsed_Protocol_is_SHIORI_witness:
  "ParseRequest (''NOTIFY SHIORI/3.0'' @ CRLF @ CRLF) =
     Some (\<lparr>Method = NOTIFY, Protocol = SHIORI, Version = ''3.0'', Headers = Map.empty\<rparr>, None)
   \<and> Request.Protocol
        \<lparr>Method = NOTIFY, Protocol = SHIORI, Version = ''3.0'', Headers = Map.empty\<rparr> = SHIORI
   \<and> ParseResponse (''SHIORI/3.0 200 OK'' @ CRLF @ CRLF) =
     Some (\<lparr>Code = 200, Protocol = SHIORI, Version = ''3.0'', Headers = Map.empty\<rparr>, None)
   \<and> Response.Protocol
        \<lparr>Code = 200, Protocol = SHIORI, Version = ''3.0'', Headers = Map.empty\<rparr> = SHIORI"
proof -
  note T1 = parsed_Protocol_is_SHIORI
      [of "''NOTIFY SHIORI/3.0'' @ CRLF @ CRLF"
          "\<lparr>Method = NOTIFY, Protocol = SHIORI, Version = ''3.0'', Headers = Map.empty\<rparr>",
       THEN conjunct1, THEN mp, OF ParseRequest_NOTIFY]
  note T2 = parsed_Protocol_is_SHIORI
      [of "''SHIORI/3.0 200 OK'' @ CRLF @ CRLF" _
          "\<lparr>Code = 200, Protocol = SHIORI, Version = ''3.0'', Headers = Map.empty\<rparr>",
       THEN conjunct2, THEN mp, OF ParseResponse_200]
  from ParseRequest_NOTIFY T1 ParseResponse_200 T2 show ?thesis
    by (intro conjI)
qed

lemma Index_abc: "Index ''abc'' CRLF = None"
  by code_simp

lemma Split_no_CRLF: "sep \<noteq> [] \<Longrightarrow> Index s sep = None \<Longrightarrow> Split s sep = [s]"
  by (subst Split.simps) simp

lemma Split_empty: "Split [] CRLF = [[]]"
  by (subst Split.simps) simp

text \<open>
  C10. Splitting any string at CRLF gives at least one line (the empty string gives one
  empty line, a string without CRLF gives itself), so line 0 and the lines after it are
  always there; and \<open>ParseHeaderLines\<close>, \<open>ParseRequest\<close> and \<open>ParseResponse\<close> return a
  pair of a value and an error on every input: no index or slice bound is ever out of
  range.
\<close>

theorem parsers_never_panic:
  "(\<exists>line0 rest. Split s CRLF = line0 # rest)
   \<and> Split [] CRLF = [[]]
   \<and> (Index s CRLF = None \<longrightarrow> Split s CRLF = [s])
   \<and> (\<exists>line0. index (Split s CRLF) 0 = Some line0)
   \<and> (\<exists>rest. slice_from (Split s CRLF) 1 = Some rest)
   \<and> (\<exists>headers err. ParseHeaderLines ls = Some (headers, err))
   \<and> (\<exists>request err. ParseRequest s = Some (request, err))
   \<and> (\<exists>response err. ParseResponse s = Some (response, err))"
proof -
  obtain line0 rest where sp: "Split s CRLF = line0 # rest"
    using Split_nonempty [of CRLF s] by auto
  have "index (Split s CRLF) 0 = Some line0" "slice_from (Split s CRLF) 1 = Some rest"
    unfolding sp by (simp_all add: index_def slice_from_def)
  then show ?thesis
    using sp Split_empty Split_no_CRLF [of CRLF s] ParseHeaderLines_total [of ls]
      ParseRequest_total [of s] ParseResponse_total [of s]
    by (intro conjI) simp_all
qed

theorem parsers_never_panic_witness:
  "Split ''abc'' CRLF = [''abc'']
   \<and> (\<exists>request err. ParseRequest [] = Some (request, err))
   \<and> (\<exists>response err. ParseResponse ''abc'' = Some (response, err))"
proof -
  note T = parsers_never_panic [of "''abc''", THEN conjunct2, THEN conjunct2, THEN conjunct1,
      THEN mp, OF Index_abc]
  note R = parsers_never_panic [of "[]", THEN conjunct2, THEN conjunct2, THEN conjunct2,
      THEN conjunct2, THEN conjunct2, THEN conjunct2, THEN conjunct1]
  note S = parsers_never_panic [of "''abc''", THEN conjunct2, THEN conjunct2, THEN conjunct2,
      THEN conjunct2, THEN conjunct2, THEN conjunct2, THEN conjunct2]
  from T R S show ?thesis
    by (intro conjI)
qed

section \<open>The status line pattern\<close>

lemma not_digit_dot: "\<not> cls_match Digit CHR ''.''"
  by (simp add: is_digit_def)

lemma not_digit_space: "\<not> cls_match Digit CHR '' ''"
  by (simp add: is_digit_def)

lemma blocks_digit_dot: "blocks Digit (OpLiteral CHR ''.'' # re)"
  by (rule blocks_Literal [OF not_digit_dot])

lemma blocks_digit_space: "blocks Digit (OpCaptureClose # OpLiteral CHR '' '' # re)"
  by (rule blocks_Close [OF blocks_Literal [OF not_digit_space]])

lemma status_code_run:
  "run status_code l i caps = Some m \<longleftrightarrow>
   (\<exists>c r. l = c @ '' '' @ r \<and> c \<noteq> [] \<and> list_all is_digit c \<and> r \<noteq> [] \<and> LF \<notin> set r
      \<and> m = (i + length l, caps @ [i + length c, i + length c + 1, i + length l]))"
  (is "?l = ?r")
proof
  assume ?l
  then obtain c r0 where 1: "l = c @ r0" "c \<noteq> []" "list_all (cls_match Digit) c"
    and 2: "run [OpLiteral CHR '' '', OpCaptureOpen, OpPlus AnyCharNotNL, OpCaptureClose, OpEndText]
              r0 (i + length c) (caps @ [i + length c]) = Some m"
    unfolding plus_iff [OF blocks_digit_space] by auto
  from 2 obtain r where 3: "r0 = '' '' @ r"
    and 4: "run status_reason r (i + length c + 1) (caps @ [i + length c, i + length c + 1]) = Some m"
    unfolding lit_iff by auto
  from 4 have 5: "r \<noteq> []" "list_all (cls_match AnyCharNotNL) r"
    and 6: "m = (i + length c + 1 + length r,
                 (caps @ [i + length c, i + length c + 1]) @ [i + length c + 1 + length r])"
    unfolding plus_to_end by simp_all
  have l: "l = c @ '' '' @ r"
    using 1(1) 3 by simp
  have "list_all is_digit c" "LF \<notin> set r"
    using 1(3) 5(2) by (auto simp: list_all_iff)
  moreover have "m = (i + length l, caps @ [i + length c, i + length c + 1, i + length l])"
    unfolding 6 l by simp
  ultimately show ?r
    using l 1(2) 5(1) by blast
next
  assume ?r
  then obtain c r where l: "l = c @ '' '' @ r" and c: "c \<noteq> []" "list_all is_digit c"
    and r: "r \<noteq> []" "LF \<notin> set r"
    and m: "m = (i + length l, caps @ [i + length c, i + length c + 1, i + length l])"
    by blast
  have "run status_reason r (i + length c + 1) (caps @ [i + length c, i + length c + 1]) = Some m"
    unfolding plus_to_end using r by (auto simp: list_all_iff m l)
  then have "run [OpLiteral CHR '' '', OpCaptureOpen, OpPlus AnyCharNotNL, OpCaptureClose, OpEndText]
              ('' '' @ r) (i + length c) (caps @ [i + length c]) = Some m"
    by simp
  then show ?l
    unfolding plus_iff [OF blocks_digit_space] l
    using c by (intro exI [of _ c] exI [of _ "'' '' @ r"]) (auto simp: list_all_iff)
qed


lemma status_minor_run:
  "run status_minor l i caps = Some m \<longleftrightarrow>
   (\<exists>v2 c r. l = v2 @ '' '' @ c @ '' '' @ r \<and> v2 \<noteq> [] \<and> list_all is_digit v2
      \<and> c \<noteq> [] \<and> list_all is_digit c \<and> r \<noteq> [] \<and> LF \<notin> set r
      \<and> m = (i + length l,
               caps @ [i + length v2, i + length v2 + 1, i + length v2 + 1 + length c,
                       i + length v2 + 1 + length c + 1, i + length l]))"
  (is "?l = ?r")
proof
  assume ?l
  then obtain v2 r0 where 1: "l = v2 @ r0" "v2 \<noteq> []" "list_all (cls_match Digit) v2"
    and 2: "run (OpLiteral CHR '' '' # OpCaptureOpen # status_code)
              r0 (i + length v2) (caps @ [i + length v2]) = Some m"
    unfolding plus_iff [OF blocks_digit_space] by auto
  from 2 obtain r1 where 3: "r0 = '' '' @ r1"
    and 4: "run status_code r1 (i + length v2 + 1) (caps @ [i + length v2, i + length v2 + 1]) = Some m"
    unfolding lit_iff by auto
  from 4 obtain c r where 5: "r1 = c @ '' '' @ r" and 6: "c \<noteq> []" "list_all is_digit c" "r \<noteq> []" "LF \<notin> set r"
    and 7: "m = (i + length v2 + 1 + length r1,
       (caps @ [i + length v2, i + length v2 + 1]) @
         [i + length v2 + 1 + length c, i + length v2 + 1 + length c + 1, i + length v2 + 1 + length r1])"
    unfolding status_code_run by blast
  have l: "l = v2 @ '' '' @ c @ '' '' @ r"
    using 1(1) 3 5 by simp
  have "list_all is_digit v2"
    using 1(3) by (auto simp: list_all_iff)
  moreover have "m = (i + length l,
               caps @ [i + length v2, i + length v2 + 1, i + length v2 + 1 + length c,
                       i + length v2 + 1 + length c + 1, i + length l])"
    unfolding 7 l 5 by simp
  ultimately show ?r
    using l 1(2) 6 by blast
next
  assume ?r
  then obtain v2 c r where l: "l = v2 @ '' '' @ c @ '' '' @ r" and v2: "v2 \<noteq> []" "list_all is_digit v2"
    and cr: "c \<noteq> []" "list_all is_digit c" "r \<noteq> []" "LF \<notin> set r"
    and m: "m = (i + length l,
               caps @ [i + length v2, i + length v2 + 1, i + length v2 + 1 + length c,
                       i + length v2 + 1 + length c + 1, i + length l])"
    by blast
  have "run status_code (c @ '' '' @ r) (i + length v2 + 1) (caps @ [i + length v2, i + length v2 + 1])
      = Some (i + length v2 + 1 + length (c @ '' '' @ r),
       (caps @ [i + length v2, i + length v2 + 1]) @
         [i + length v2 + 1 + length c, i + length v2 + 1 + length c + 1,
          i + length v2 + 1 + length (c @ '' '' @ r)])"
    unfolding status_code_run using cr by blast
  also have "\<dots> = Some m"
    unfolding m l by simp
  finally have "run (OpLiteral CHR '' '' # OpCaptureOpen # status_code)
              ('' '' @ c @ '' '' @ r) (i + length v2) (caps @ [i + length v2]) = Some m"
    by simp
  then show ?l
    unfolding plus_iff [OF blocks_digit_space] l
    using v2 by (intro exI [of _ v2] exI [of _ "'' '' @ c @ '' '' @ r"]) (auto simp: list_all_iff)
qed

lemma status_major_run:
  "run status_major l i caps = Some m \<longleftrightarrow>
   (\<exists>v1 v2 c r. l = v1 @ ''.'' @ v2 @ '' '' @ c @ '' '' @ r
      \<and> v1 \<noteq> [] \<and> list_all is_digit v1 \<and> v2 \<noteq> [] \<and> list_all is_digit v2
      \<and> c \<noteq> [] \<and> list_all is_digit c \<and> r \<noteq> [] \<and> LF \<notin> set r
      \<and> m = (i + length l,
               caps @ [i + length v1 + 1 + length v2, i + length v1 + 1 + length v2 + 1,
                       i + length v1 + 1 + length v2 + 1 + length c,
                       i + length v1 + 1 + length v2 + 1 + length c + 1, i + length l]))"
  (is "?l = ?r")
proof
  assume ?l
  then obtain v1 r0 where 1: "l = v1 @ r0" "v1 \<noteq> []" "list_all (cls_match Digit) v1"
    and 2: "run (OpLiteral CHR ''.'' # status_minor) r0 (i + length v1) caps = Some m"
    unfolding plus_iff [OF blocks_digit_dot] by auto
  from 2 obtain r1 where 3: "r0 = ''.'' @ r1"
    and 4: "run status_minor r1 (i + length v1 + 1) caps = Some m"
    unfolding lit_iff by auto
  from 4 obtain v2 c r where 5: "r1 = v2 @ '' '' @ c @ '' '' @ r"
    and 6: "v2 \<noteq> []" "list_all is_digit v2" "c \<noteq> []" "list_all is_digit c" "r \<noteq> []" "LF \<notin> set r"
    and 7: "m = (i + length v1 + 1 + length r1,
               caps @ [i + length v1 + 1 + length v2, i + length v1 + 1 + length v2 + 1,
                       i + length v1 + 1 + length v2 + 1 + length c,
                       i + length v1 + 1 + length v2 + 1 + length c + 1, i + length v1 + 1 + length r1])"
    unfolding status_minor_run by blast
  have l: "l = v1 @ ''.'' @ v2 @ '' '' @ c @ '' '' @ r"
    using 1(1) 3 5 by simp
  have "list_all is_digit v1"
    using 1(3) by (auto simp: list_all_iff)
  moreover have "m = (i + length l,
               caps @ [i + length v1 + 1 + length v2, i + length v1 + 1 + length v2 + 1,
                       i + length v1 + 1 + length v2 + 1 + length c,
                       i + length v1 + 1 + length v2 + 1 + length c + 1, i + length l])"
    unfolding 7 l 5 by simp
  ultimately show ?r
    using l 1(2) 6 by blast
next
  assume ?r
  then obtain v1 v2 c r where l: "l = v1 @ ''.'' @ v2 @ '' '' @ c @ '' '' @ r"
    and v1: "v1 \<noteq> []" "list_all is_digit v1"
    and rest: "v2 \<noteq> []" "list_all is_digit v2" "c \<noteq> []" "list_all is_digit c" "r \<noteq> []" "LF \<notin> set r"
    and m: "m = (i + length l,
               caps @ [i + length v1 + 1 + length v2, i + length v1 + 1 + length v2 + 1,
                       i + length v1 + 1 + length v2 + 1 + length c,
                       i + length v1 + 1 + length v2 + 1 + length c + 1, i + length l])"
    by blast
  have "run status_minor (v2 @ '' '' @ c @ '' '' @ r) (i + length v1 + 1) caps
      = Some (i + length v1 + 1 + length (v2 @ '' '' @ c @ '' '' @ r),
               caps @ [i + length v1 + 1 + length v2, i + length v1 + 1 + length v2 + 1,
                       i + length v1 + 1 + length v2 + 1 + length c,
                       i + length v1 + 1 + length v2 + 1 + length c + 1,
                       i + length v1 + 1 + length (v2 @ '' '' @ c @ '' '' @ r)])"
    unfolding status_minor_run using rest by blast
  also have "\<dots> = Some m"
    unfolding m l by simp
  finally have "run (OpLiteral CHR ''.'' # status_minor) (''.'' @ v2 @ '' '' @ c @ '' '' @ r)
       (i + length v1) caps = Some m"
    by simp
  then show ?l
    unfolding plus_iff [OF blocks_digit_dot] l
    using v1 by (intro exI [of _ v1] exI [of _ "''.'' @ v2 @ '' '' @ c @ '' '' @ r"]) (auto simp: list_all_iff)
qed


lemma substr_at:
  "a = length p \<Longrightarrow> b = length p + length m \<Longrightarrow> s = p @ m @ q \<Longrightarrow> substr s a b = m"
  by (simp add: substr_def)

lemma statusLineRe_eq:
  "statusLineRe = OpBeginText # map OpLiteral ''SHIORI/'' @ OpCaptureOpen # status_major"
  by (simp add: statusLineRe_def)

lemma len7: "0 + length ''SHIORI/'' = 7"
  by simp

lemma status_run:
  "run (map OpLiteral ''SHIORI/'' @ OpCaptureOpen # status_major) l 0 [] = Some m \<longleftrightarrow>
   (\<exists>v1 v2 c r. l = ''SHIORI/'' @ v1 @ ''.'' @ v2 @ '' '' @ c @ '' '' @ r
      \<and> v1 \<noteq> [] \<and> list_all is_digit v1 \<and> v2 \<noteq> [] \<and> list_all is_digit v2
      \<and> c \<noteq> [] \<and> list_all is_digit c \<and> r \<noteq> [] \<and> LF \<notin> set r
      \<and> m = (length l,
               [7, 7 + length v1 + 1 + length v2, 7 + length v1 + 1 + length v2 + 1,
                7 + length v1 + 1 + length v2 + 1 + length c,
                7 + length v1 + 1 + length v2 + 1 + length c + 1, length l]))"
  (is "?l = ?r")
proof
  assume ?l
  then have "\<exists>rest. l = ''SHIORI/'' @ rest
      \<and> run (OpCaptureOpen # status_major) rest (0 + length ''SHIORI/'') [] = Some m"
    unfolding lits_iff .
  then obtain r0 where 1: "l = ''SHIORI/'' @ r0"
    and cap: "run (OpCaptureOpen # status_major) r0 (0 + length ''SHIORI/'') [] = Some m"
    by blast
  from cap have 2: "run status_major r0 7 [7] = Some m"
    unfolding len7 by simp
  from 2 obtain v1 v2 c r where 3: "r0 = v1 @ ''.'' @ v2 @ '' '' @ c @ '' '' @ r"
    and 4: "v1 \<noteq> []" "list_all is_digit v1" "v2 \<noteq> []" "list_all is_digit v2"
      "c \<noteq> []" "list_all is_digit c" "r \<noteq> []" "LF \<notin> set r"
    and 5: "m = (7 + length r0,
               [7] @ [7 + length v1 + 1 + length v2, 7 + length v1 + 1 + length v2 + 1,
                       7 + length v1 + 1 + length v2 + 1 + length c,
                       7 + length v1 + 1 + length v2 + 1 + length c + 1, 7 + length r0])"
    unfolding status_major_run by blast
  have l: "l = ''SHIORI/'' @ v1 @ ''.'' @ v2 @ '' '' @ c @ '' '' @ r"
    unfolding 1 3 ..
  have "m = (length l,
               [7, 7 + length v1 + 1 + length v2, 7 + length v1 + 1 + length v2 + 1,
                7 + length v1 + 1 + length v2 + 1 + length c,
                7 + length v1 + 1 + length v2 + 1 + length c + 1, length l])"
    unfolding 5 l 3 by simp
  then show ?r
    using l 4 by blast
next
  assume ?r
  then obtain v1 v2 c r where l: "l = ''SHIORI/'' @ v1 @ ''.'' @ v2 @ '' '' @ c @ '' '' @ r"
    and conds: "v1 \<noteq> []" "list_all is_digit v1" "v2 \<noteq> []" "list_all is_digit v2"
      "c \<noteq> []" "list_all is_digit c" "r \<noteq> []" "LF \<notin> set r"
    and m: "m = (length l,
               [7, 7 + length v1 + 1 + length v2, 7 + length v1 + 1 + length v2 + 1,
                7 + length v1 + 1 + length v2 + 1 + length c,
                7 + length v1 + 1 + length v2 + 1 + length c + 1, length l])"
    by blast
  let ?r0 = "v1 @ ''.'' @ v2 @ '' '' @ c @ '' '' @ r"
  have "run status_major ?r0 7 [7] = Some (7 + length ?r0,
               [7] @ [7 + length v1 + 1 + length v2, 7 + length v1 + 1 + length v2 + 1,
                       7 + length v1 + 1 + length v2 + 1 + length c,
                       7 + length v1 + 1 + length v2 + 1 + length c + 1, 7 + length ?r0])"
    unfolding status_major_run using conds by blast
  also have "\<dots> = Some m"
    unfolding m l by simp
  finally have "run (OpCaptureOpen # status_major) ?r0 7 [] = Some m"
    by simp
  then have "run (OpCaptureOpen # status_major) ?r0 (0 + length ''SHIORI/'') [] = Some m"
    by (simp only: len7 [symmetric])
  then show ?l
    unfolding lits_iff l by blast
qed

lemma status_match_iff:
  "FindStringSubmatch statusLineRe l = Some res \<longleftrightarrow>
   (\<exists>v1 v2 c r. l = ''SHIORI/'' @ v1 @ ''.'' @ v2 @ '' '' @ c @ '' '' @ r
      \<and> v1 \<noteq> [] \<and> list_all is_digit v1 \<and> v2 \<noteq> [] \<and> list_all is_digit v2
      \<and> c \<noteq> [] \<and> list_all is_digit c \<and> r \<noteq> [] \<and> LF \<notin> set r
      \<and> res = [l, v1 @ ''.'' @ v2, c, r])"
  (is "?l = ?r")
proof -
  let ?re = "map OpLiteral ''SHIORI/'' @ OpCaptureOpen # status_major"
  have g: "substr (''SHIORI/'' @ v1 @ ''.'' @ v2 @ '' '' @ c @ '' '' @ r) 0
             (length (''SHIORI/'' @ v1 @ ''.'' @ v2 @ '' '' @ c @ '' '' @ r))
           # groups (''SHIORI/'' @ v1 @ ''.'' @ v2 @ '' '' @ c @ '' '' @ r)
               [7, 7 + length v1 + 1 + length v2, 7 + length v1 + 1 + length v2 + 1,
                7 + length v1 + 1 + length v2 + 1 + length c,
                7 + length v1 + 1 + length v2 + 1 + length c + 1,
                length (''SHIORI/'' @ v1 @ ''.'' @ v2 @ '' '' @ c @ '' '' @ r)]
       = [''SHIORI/'' @ v1 @ ''.'' @ v2 @ '' '' @ c @ '' '' @ r, v1 @ ''.'' @ v2, c, r]"
    (is "substr ?L 0 (length ?L) # groups ?L _ = _")
    for v1 v2 c r :: string
  proof -
    have g1: "substr ?L 7 (7 + length v1 + 1 + length v2) = v1 @ ''.'' @ v2"
      by (rule substr_at [where p = "''SHIORI/''" and q = "'' '' @ c @ '' '' @ r"]) simp_all
    have g2: "substr ?L (7 + length v1 + 1 + length v2 + 1)
                (7 + length v1 + 1 + length v2 + 1 + length c) = c"
      by (rule substr_at [where p = "''SHIORI/'' @ v1 @ ''.'' @ v2 @ '' ''" and q = "'' '' @ r"])
        simp_all
    have g3: "substr ?L (7 + length v1 + 1 + length v2 + 1 + length c + 1) (length ?L) = r"
      by (rule substr_at [where p = "''SHIORI/'' @ v1 @ ''.'' @ v2 @ '' '' @ c @ '' ''" and q = "[]"])
        simp_all
    show ?thesis
      by (simp only: groups.simps g1 g2 g3 substr_all)
  qed
  have F: "FindStringSubmatch statusLineRe l =
    (case run ?re l 0 [] of
       None \<Rightarrow> None | Some (e, caps) \<Rightarrow> Some (substr l 0 e # groups l caps))"
    unfolding FindStringSubmatch_def statusLineRe_eq search_BeginText
    by (simp split: option.splits)
  show ?thesis
  proof
    assume ?l
    then obtain m where m: "run ?re l 0 [] = Some m"
      and res: "res = substr l 0 (fst m) # groups l (snd m)"
      unfolding F by (auto split: option.splits)
    from m obtain v1 v2 c r where l: "l = ''SHIORI/'' @ v1 @ ''.'' @ v2 @ '' '' @ c @ '' '' @ r"
      and conds: "v1 \<noteq> []" "list_all is_digit v1" "v2 \<noteq> []" "list_all is_digit v2"
        "c \<noteq> []" "list_all is_digit c" "r \<noteq> []" "LF \<notin> set r"
      and mm: "m = (length l,
               [7, 7 + length v1 + 1 + length v2, 7 + length v1 + 1 + length v2 + 1,
                7 + length v1 + 1 + length v2 + 1 + length c,
                7 + length v1 + 1 + length v2 + 1 + length c + 1, length l])"
      unfolding status_run by blast
    have "res = [l, v1 @ ''.'' @ v2, c, r]"
      unfolding res mm l fst_conv snd_conv by (rule g)
    with l conds show ?r by blast
  next
    assume ?r
    then obtain v1 v2 c r where l: "l = ''SHIORI/'' @ v1 @ ''.'' @ v2 @ '' '' @ c @ '' '' @ r"
      and conds: "v1 \<noteq> []" "list_all is_digit v1" "v2 \<noteq> []" "list_all is_digit v2"
        "c \<noteq> []" "list_all is_digit c" "r \<noteq> []" "LF \<notin> set r"
      and res: "res = [l, v1 @ ''.'' @ v2, c, r]" by blast
    have "run ?re l 0 [] = Some (length l,
               [7, 7 + length v1 + 1 + length v2, 7 + length v1 + 1 + length v2 + 1,
                7 + length v1 + 1 + length v2 + 1 + length c,
                7 + length v1 + 1 + length v2 + 1 + length c + 1, length l])"
      unfolding status_run using l conds by blast
    then have "FindStringSubmatch statusLineRe l = Some (substr l 0 (length l) # groups l
               [7, 7 + length v1 + 1 + length v2, 7 + length v1 + 1 + length v2 + 1,
                7 + length v1 + 1 + length v2 + 1 + length c,
                7 + length v1 + 1 + length v2 + 1 + length c + 1, length l])"
      unfolding F by simp
    then show ?l
      unfolding res l g .
  qed
qed

lemma status_match_shape:
  "FindStringSubmatch statusLineRe l \<noteq> None \<longleftrightarrow> status_shape_one_line l"
proof -
  have "FindStringSubmatch statusLineRe l \<noteq> None \<longleftrightarrow> (\<exists>res. FindStringSubmatch statusLineRe l = Some res)"
    by simp
  also have "\<dots> \<longleftrightarrow> status_shape_one_line l"
    unfolding status_match_iff status_shape_one_line_def by blast
  finally show ?thesis .
qed

lemma Atoi_digits:
  assumes "c \<noteq> []" "list_all is_digit c"
  shows "Atoi c = (if decimal c < 2 ^ (intSize - 1) then (decimal c, None)
                   else (2 ^ (intSize - 1) - 1, Some (NumError ''Atoi'' c ErrRange)))"
proof -
  from assms have "is_digit (hd c)"
    by (cases c) simp_all
  then have "hd c \<noteq> CHR ''+''" "hd c \<noteq> CHR ''-''"
    by (auto simp: is_digit_def)
  with assms show ?thesis
    by (simp add: Atoi_def Let_def not_less)
qed

lemma ParseResponse_no_match:
  assumes "Split s CRLF = line # headerLines" "FindStringSubmatch statusLineRe line = None"
  shows "ParseResponse s =
    Some (\<lparr>Code = 0, Protocol = SHIORI, Version = [], Headers = Map.empty\<rparr>,
          Some (ParseResponseError (''status line parse failed: '' @ line)))"
  using assms by (simp add: ParseResponse_def index_def slice_from_def)

lemma ParseResponse_match:
  assumes "Split s CRLF = line # headerLines"
    and "FindStringSubmatch statusLineRe line = Some [line, version, c, r]"
    and "c \<noteq> []" "list_all is_digit c"
  shows "ParseResponse s =
    (if decimal c < 2 ^ (intSize - 1)
     then map_option
            (\<lambda>(h, err). (\<lparr>Code = decimal c, Protocol = SHIORI, Version = version, Headers = h\<rparr>, err))
            (ParseHeaderLines headerLines)
     else Some (\<lparr>Code = 2 ^ (intSize - 1) - 1, Protocol = SHIORI, Version = version,
                 Headers = Map.empty\<rparr>,
                Some (NumError ''Atoi'' c ErrRange)))"
proof -
  obtain h herr where hl: "ParseHeaderLines headerLines = Some (h, herr)"
    using ParseHeaderLines_total by blast
  show ?thesis
    by (cases herr)
      (simp_all add: ParseResponse_def index_def slice_from_def assms(1,2) Atoi_digits [OF assms(3,4)] hl)
qed

subsection \<open>The claim on the status line\<close>

text \<open>
  C6. Let \<open>line\<close> be line 0 of the input split at CRLF. The pattern matches it exactly
  when it is \<^verbatim>\<open>SHIORI/\<close>, digits, a dot, digits, a space, digits, a space and a reason
  phrase of at least one character none of which is a line feed. Otherwise
  \<open>ParseResponse\<close> returns a \<open>ParseResponseError\<close> with the line. On a match the result is
  made of the version, the code and the header lines only, the reason phrase is dropped;
  and when the digits of the code are not below \<open>2 ^ (intSize - 1)\<close> the range error of
  \<open>Atoi\<close> is what \<open>ParseResponse\<close> returns.
\<close>

theorem ParseResponse_status_line:
  "Split s CRLF = line # headerLines \<longrightarrow>
     ((FindStringSubmatch statusLineRe line \<noteq> None) = status_shape_one_line line)
     \<and> (\<not> status_shape_one_line line \<longrightarrow>
          ParseResponse s =
            Some (\<lparr>Code = 0, Protocol = SHIORI, Version = [], Headers = Map.empty\<rparr>,
                  Some (ParseResponseError (''status line parse failed: '' @ line))))
     \<and> (line = ''SHIORI/'' @ v1 @ ''.'' @ v2 @ '' '' @ c @ '' '' @ r
          \<and> v1 \<noteq> [] \<and> list_all is_digit v1 \<and> v2 \<noteq> [] \<and> list_all is_digit v2
          \<and> c \<noteq> [] \<and> list_all is_digit c \<and> r \<noteq> [] \<and> LF \<notin> set r \<longrightarrow>
          ParseResponse s =
            (if decimal c < 2 ^ (intSize - 1)
             then map_option
                    (\<lambda>(h, err). (\<lparr>Code = decimal c, Protocol = SHIORI, Version = v1 @ ''.'' @ v2,
                                   Headers = h\<rparr>, err))
                    (ParseHeaderLines headerLines)
             else Some (\<lparr>Code = 2 ^ (intSize - 1) - 1, Protocol = SHIORI,
                          Version = v1 @ ''.'' @ v2, Headers = Map.empty\<rparr>,
                        Some (NumError ''Atoi'' c ErrRange))))"
proof (intro impI conjI)
  show "(FindStringSubmatch statusLineRe line \<noteq> None) = status_shape_one_line line"
    by (rule status_match_shape)
next
  assume sp: "Split s CRLF = line # headerLines" and "\<not> status_shape_one_line line"
  then have "FindStringSubmatch statusLineRe line = None"
    using status_match_shape [of line] by simp
  with sp show "ParseResponse s =
            Some (\<lparr>Code = 0, Protocol = SHIORI, Version = [], Headers = Map.empty\<rparr>,
                  Some (ParseResponseError (''status line parse failed: '' @ line)))"
    by (rule ParseResponse_no_match)
next
  assume sp: "Split s CRLF = line # headerLines"
    and a: "line = ''SHIORI/'' @ v1 @ ''.'' @ v2 @ '' '' @ c @ '' '' @ r
          \<and> v1 \<noteq> [] \<and> list_all is_digit v1 \<and> v2 \<noteq> [] \<and> list_all is_digit v2
          \<and> c \<noteq> [] \<and> list_all is_digit c \<and> r \<noteq> [] \<and> LF \<notin> set r"
  from a have c: "c \<noteq> []" "list_all is_digit c"
    by blast+
  from a have "\<exists>v1' v2' c' r'. line = ''SHIORI/'' @ v1' @ ''.'' @ v2' @ '' '' @ c' @ '' '' @ r'
      \<and> v1' \<noteq> [] \<and> list_all is_digit v1' \<and> v2' \<noteq> [] \<and> list_all is_digit v2'
      \<and> c' \<noteq> [] \<and> list_all is_digit c' \<and> r' \<noteq> [] \<and> LF \<notin> set r'
      \<and> [line, v1 @ ''.'' @ v2, c, r] = [line, v1' @ ''.'' @ v2', c', r']"
    by (intro exI [of _ v1] exI [of _ v2] exI [of _ c] exI [of _ r]) simp
  then have "FindStringSubmatch statusLineRe line = Some [line, v1 @ ''.'' @ v2, c, r]"
    unfolding status_match_iff .
  from ParseResponse_match [OF sp this c]
  show "ParseResponse s =
            (if decimal c < 2 ^ (intSize - 1)
             then map_option
                    (\<lambda>(h, err). (\<lparr>Code = decimal c, Protocol = SHIORI, Version = v1 @ ''.'' @ v2,
                                   Headers = h\<rparr>, err))
                    (ParseHeaderLines headerLines)
             else Some (\<lparr>Code = 2 ^ (intSize - 1) - 1, Protocol = SHIORI,
                          Version = v1 @ ''.'' @ v2, Headers = Map.empty\<rparr>,
                        Some (NumError ''Atoi'' c ErrRange)))" .
qed

lemma Split_status_LF:
  "Split (''SHIORI/3.0 200 O'' @ [LF] @ ''K'' @ CRLF @ CRLF) CRLF = [''SHIORI/3.0 200 O'' @ [LF] @ ''K'', [], []]"
  by code_simp

lemma status_LF_no_match:
  "FindStringSubmatch statusLineRe (''SHIORI/3.0 200 O'' @ [LF] @ ''K'') = None"
  by code_simp

text \<open>
  Without the condition on line feeds the equivalence fails: the line
  \<^verbatim>\<open>SHIORI/3.0 200 O\nK\<close> has a version, a code and a reason phrase of three characters, and
  the pattern does not match it, since \<^verbatim>\<open>.\<close> matches no line feed and \<^verbatim>\<open>$\<close> only the end of
  the text.
\<close>

theorem ParseResponse_status_line_counterexample:
  "status_shape (''SHIORI/3.0 200 O'' @ [LF] @ ''K'')
   \<and> FindStringSubmatch statusLineRe (''SHIORI/3.0 200 O'' @ [LF] @ ''K'') = None
   \<and> ParseResponse (''SHIORI/3.0 200 O'' @ [LF] @ ''K'' @ CRLF @ CRLF) =
       Some (\<lparr>Code = 0, Protocol = SHIORI, Version = [], Headers = Map.empty\<rparr>,
             Some (ParseResponseError (''status line parse failed: SHIORI/3.0 200 O'' @ [LF] @ ''K'')))"
proof (intro conjI)
  show "status_shape (''SHIORI/3.0 200 O'' @ [LF] @ ''K'')"
    unfolding status_shape_def
    by (intro exI [of _ "''3''"] exI [of _ "''0''"] exI [of _ "''200''"] exI [of _ "''O'' @ [LF] @ ''K''"])
      (simp add: is_digit_def)
next
  show "FindStringSubmatch statusLineRe (''SHIORI/3.0 200 O'' @ [LF] @ ''K'') = None"
    by (rule status_LF_no_match)
next
  from ParseResponse_no_match [OF Split_status_LF status_LF_no_match]
  show "ParseResponse (''SHIORI/3.0 200 O'' @ [LF] @ ''K'' @ CRLF @ CRLF) =
       Some (\<lparr>Code = 0, Protocol = SHIORI, Version = [], Headers = Map.empty\<rparr>,
             Some (ParseResponseError (''status line parse failed: SHIORI/3.0 200 O'' @ [LF] @ ''K'')))"
    by simp
qed

lemma Split_response_OK:
  "Split (''SHIORI/3.0 200 OK'' @ CRLF @ ''Sender: A'' @ CRLF @ CRLF) CRLF
     = [''SHIORI/3.0 200 OK'', ''Sender: A'', [], []]"
  by code_simp

lemma Split_response_overflow:
  "Split (''SHIORI/3.0 9223372036854775808 X'' @ CRLF @ CRLF) CRLF
     = [''SHIORI/3.0 9223372036854775808 X'', [], []]"
  by code_simp

lemma Split_response_no_reason:
  "Split (''SHIORI/3.0 200 '' @ CRLF @ CRLF) CRLF = [''SHIORI/3.0 200 '', [], []]"
  by code_simp

lemma status_no_reason_no_match: "FindStringSubmatch statusLineRe ''SHIORI/3.0 200 '' = None"
  by code_simp

lemma header_Sender_A: "FindStringSubmatch headerRe ''Sender: A'' = Some [''Sender: A'', ''Sender'', ''A'']"
  by code_simp

lemma decimal_200: "decimal ''200'' = 200"
  by code_simp

lemma decimal_overflow: "decimal ''9223372036854775808'' = 9223372036854775808"
  by code_simp

theorem ParseResponse_status_line_witness:
  "ParseResponse (''SHIORI/3.0 200 OK'' @ CRLF @ ''Sender: A'' @ CRLF @ CRLF) =
     Some (\<lparr>Code = 200, Protocol = SHIORI, Version = ''3.0'', Headers = [''Sender'' \<mapsto> ''A'']\<rparr>, None)
   \<and> ParseResponse (''SHIORI/3.0 9223372036854775808 X'' @ CRLF @ CRLF) =
     Some (\<lparr>Code = 9223372036854775807, Protocol = SHIORI, Version = ''3.0'', Headers = Map.empty\<rparr>,
           Some (NumError ''Atoi'' ''9223372036854775808'' ErrRange))
   \<and> ParseResponse (''SHIORI/3.0 200 '' @ CRLF @ CRLF) =
     Some (\<lparr>Code = 0, Protocol = SHIORI, Version = [], Headers = Map.empty\<rparr>,
           Some (ParseResponseError ''status line parse failed: SHIORI/3.0 200 ''))"
proof (intro conjI)
  have hl: "ParseHeaderLines [''Sender: A'', [], []] = Some ([''Sender'' \<mapsto> ''A''], None)"
    by (simp add: ParseHeaderLines_def header_Sender_A index_def)
  have shape: "''SHIORI/3.0 200 OK'' = ''SHIORI/'' @ ''3'' @ ''.'' @ ''0'' @ '' '' @ ''200'' @ '' '' @ ''OK''
      \<and> ''3'' \<noteq> [] \<and> list_all is_digit ''3'' \<and> ''0'' \<noteq> [] \<and> list_all is_digit ''0''
      \<and> ''200'' \<noteq> [] \<and> list_all is_digit ''200'' \<and> ''OK'' \<noteq> [] \<and> LF \<notin> set ''OK''"
    by (simp add: is_digit_def)
  note T = ParseResponse_status_line
         [of "''SHIORI/3.0 200 OK'' @ CRLF @ ''Sender: A'' @ CRLF @ CRLF" "''SHIORI/3.0 200 OK''"
             "[''Sender: A'', [], []]" "''3''" "''0''" "''200''" "''OK''", THEN mp, OF Split_response_OK]
  note T3 = T [THEN conjunct2, THEN conjunct2, THEN mp, OF shape]
  have small: "decimal ''200'' < 2 ^ (intSize - 1)"
    unfolding decimal_200 intSize_def by simp
  show "ParseResponse (''SHIORI/3.0 200 OK'' @ CRLF @ ''Sender: A'' @ CRLF @ CRLF) =
     Some (\<lparr>Code = 200, Protocol = SHIORI, Version = ''3.0'', Headers = [''Sender'' \<mapsto> ''A'']\<rparr>, None)"
    by (subst T3, subst if_P [OF small], unfold hl decimal_200) simp
next
  have shape: "''SHIORI/3.0 9223372036854775808 X''
        = ''SHIORI/'' @ ''3'' @ ''.'' @ ''0'' @ '' '' @ ''9223372036854775808'' @ '' '' @ ''X''
      \<and> ''3'' \<noteq> [] \<and> list_all is_digit ''3'' \<and> ''0'' \<noteq> [] \<and> list_all is_digit ''0''
      \<and> ''9223372036854775808'' \<noteq> [] \<and> list_all is_digit ''9223372036854775808''
      \<and> ''X'' \<noteq> [] \<and> LF \<notin> set ''X''"
    by (simp add: is_digit_def)
  note T = ParseResponse_status_line
         [of "''SHIORI/3.0 9223372036854775808 X'' @ CRLF @ CRLF" "''SHIORI/3.0 9223372036854775808 X''"
             "[[], []]" "''3''" "''0''" "''9223372036854775808''" "''X''", THEN mp,
          OF Split_response_overflow]
  note T3 = T [THEN conjunct2, THEN conjunct2, THEN mp, OF shape]
  have big: "\<not> decimal ''9223372036854775808'' < 2 ^ (intSize - 1)"
    unfolding decimal_overflow intSize_def by simp
  have max: "(2::int) ^ (intSize - 1) - 1 = 9223372036854775807"
    unfolding intSize_def by simp
  show "ParseResponse (''SHIORI/3.0 9223372036854775808 X'' @ CRLF @ CRLF) =
     Some (\<lparr>Code = 9223372036854775807, Protocol = SHIORI, Version = ''3.0'', Headers = Map.empty\<rparr>,
           Some (NumError ''Atoi'' ''9223372036854775808'' ErrRange))"
    by (subst T3, subst if_not_P [OF big], unfold max) simp
next
  note T = ParseResponse_status_line
         [of "''SHIORI/3.0 200 '' @ CRLF @ CRLF" "''SHIORI/3.0 200 ''" "[[], []]", THEN mp,
          OF Split_response_no_reason]
  have "\<not> status_shape_one_line ''SHIORI/3.0 200 ''"
    using T [THEN conjunct1] status_no_reason_no_match by simp
  from T [THEN conjunct2, THEN conjunct1, THEN mp, OF this]
  show "ParseResponse (''SHIORI/3.0 200 '' @ CRLF @ CRLF) =
     Some (\<lparr>Code = 0, Protocol = SHIORI, Version = [], Headers = Map.empty\<rparr>,
           Some (ParseResponseError ''status line parse failed: SHIORI/3.0 200 ''))"
    by simp
qed

end
